theory Spec2Isabelle
  imports Main
begin

section \<open>Characters and the standard conversions used by the parser\<close>

text \<open>
  A \<^verbatim>\<open>std::string\<close> is a sequence of bytes, here a \<^typ>\<open>string\<close>. The text written
  to \<^verbatim>\<open>std::cout\<close> is returned as a \<^typ>\<open>string\<close>; the history deque is a
  \<^typ>\<open>string list\<close> whose head is the front of the deque.
\<close>

definition nl :: char where
  "nl = CHR 0x0A"

text \<open>\<^verbatim>\<open>isspace\<close> and \<^verbatim>\<open>isdigit\<close> in the "C" locale (the program never changes it).\<close>

definition isspace :: "char \<Rightarrow> bool" where
  "isspace c = (of_char c = (32::int) \<or> (9 \<le> (of_char c :: int) \<and> (of_char c :: int) \<le> 13))"

definition isdigit :: "char \<Rightarrow> bool" where
  "isdigit c = (48 \<le> (of_char c :: int) \<and> (of_char c :: int) \<le> 57)"

definition digit_val :: "char \<Rightarrow> int" where
  "digit_val c = of_char c - 48"

definition digits_val :: "string \<Rightarrow> int" where
  "digits_val ds = foldl (\<lambda>acc c. 10 * acc + digit_val c) 0 ds"

text \<open>The two exceptions of the string conversions; both derive from \<^verbatim>\<open>std::exception\<close>.\<close>

datatype conv_error = invalid_argument | out_of_range

text \<open>\<^verbatim>\<open>int\<close> is 32 bits wide on the program's platform (Visual Studio 2019).\<close>

definition INT_MAX :: int where
  "INT_MAX = 2147483647"

definition INT_MIN :: int where
  "INT_MIN = - 2147483648"

text \<open>
  \<^verbatim>\<open>std::stoi(str)\<close> with the default base 10 and no position pointer: it calls
  \<^verbatim>\<open>strtol\<close>, which skips leading white space, reads an optional sign and the longest
  run of decimal digits, and stops at the first other character. No digit at all raises
  \<^verbatim>\<open>invalid_argument\<close>; a value outside \<^verbatim>\<open>int\<close> raises \<^verbatim>\<open>out_of_range\<close>.
\<close>

definition strip_sign :: "string \<Rightarrow> bool \<times> string" where
  "strip_sign s =
     (case s of
        [] \<Rightarrow> (False, [])
      | c # cs \<Rightarrow>
          if c = CHR ''-'' then (True, cs)
          else if c = CHR ''+'' then (False, cs)
          else (False, c # cs))"

definition stoi :: "string \<Rightarrow> conv_error + int" where
  "stoi s =
     (let (neg, body) = strip_sign (dropWhile isspace s);
          ds = takeWhile isdigit body;
          v = (if neg then - digits_val ds else digits_val ds)
      in if ds = [] then Inl invalid_argument
         else if v < INT_MIN \<or> INT_MAX < v then Inl out_of_range
         else Inr v)"

text \<open>
  \<^verbatim>\<open>std::cout << n\<close> for an \<^verbatim>\<open>int\<close> in the default stream state: the decimal
  digits, with a leading minus sign for a negative value.
\<close>

function show_digits :: "int \<Rightarrow> string" where
  "show_digits n =
     (if n < 10 then [char_of (48 + n)]
      else show_digits (n div 10) @ [char_of (48 + n mod 10)])"
  by pat_completeness auto
termination
  by (relation "measure nat") auto

declare show_digits.simps [simp del]

definition show_int :: "int \<Rightarrow> string" where
  "show_int i = (if i < 0 then CHR ''-'' # show_digits (- i) else show_digits i)"

section \<open>The history of the last five opcodes\<close>

definition updateHistory :: "string list \<Rightarrow> string \<Rightarrow> string list" where
  "updateHistory strHistory strOpCode =
     (let h = strOpCode # strHistory
      in if length h > 5 then butlast h else h)"

section \<open>The parser\<close>

text \<open>
  The loop \<^verbatim>\<open>while (std::getline(ss, strToken, ','))\<close>: every comma ends a token
  (possibly an empty one); at the end of the stream the characters read so far are a
  last token, and when there are none the extraction fails and the loop ends.
\<close>

fun getline_loop :: "string \<Rightarrow> string \<Rightarrow> string list" where
  "getline_loop cur [] = (if cur = [] then [] else [cur])"
| "getline_loop cur (c # cs) =
     (if c = CHR '','' then cur # getline_loop [] cs
      else getline_loop (cur @ [c]) cs)"

definition vecTokens :: "string \<Rightarrow> string list" where
  "vecTokens strMessageContent = filter (\<lambda>t. t \<noteq> []) (getline_loop [] strMessageContent)"

text \<open>
  The pairwise loop over the tokens. \<^verbatim>\<open>std::stod\<close> and the stream's formatting of a
  \<^verbatim>\<open>double\<close> are library code; the parser takes them as parameters, so that what does
  not depend on them is proved for every conversion: \<open>stod\<close> returns the value or the
  exception it raises, \<open>put_double\<close> the text written for a value. The library's own
  conversion and output are defined further down.
\<close>

fun print_pairs ::
  "(string \<Rightarrow> conv_error + 'd) \<Rightarrow> ('d \<Rightarrow> string) \<Rightarrow> string list \<Rightarrow> string" where
  "print_pairs stod put_double (name # val # rest) =
     (if length name > 15 then ''Parameter name too long: '' @ name @ [nl]
      else
        (case stod val of
           Inr dblParmValue \<Rightarrow> name @ '' = '' @ put_double dblParmValue @ [nl]
         | Inl _ \<Rightarrow> ''Invalid parameter value for parameter: '' @ name @ [nl]))
     @ print_pairs stod put_double rest"
| "print_pairs stod put_double _ = []"

definition parseCommand ::
  "(string \<Rightarrow> conv_error + 'd) \<Rightarrow> ('d \<Rightarrow> string) \<Rightarrow> string \<Rightarrow> string list
     \<Rightarrow> string \<times> string list" where
  "parseCommand stod put_double strInput strHistory =
     (if strInput = [] \<or> last strInput \<noteq> CHR ''#'' then ([], strHistory)
      else if 11 \<le> length strInput then
        (let strOpCode = take 10 strInput;
             rest = drop 10 strInput;
             strMessageContent =
               (if rest \<noteq> [] \<and> last rest = CHR ''#'' then butlast rest else rest)
         in if strOpCode = ''RUN_NO____'' then
              ((case stoi strMessageContent of
                  Inr iRunNumber \<Rightarrow> ''Run number: '' @ show_int iRunNumber @ [nl]
                | Inl _ \<Rightarrow> ''Invalid Run number: '' @ strMessageContent @ [nl]),
               updateHistory strHistory strOpCode)
            else if strOpCode = ''POLAR_NO__'' then
              ((case stoi strMessageContent of
                  Inr iPolarNumber \<Rightarrow> ''Polar number: '' @ show_int iPolarNumber @ [nl]
                | Inl _ \<Rightarrow> ''Invalid Polar number: '' @ strMessageContent @ [nl]),
               updateHistory strHistory strOpCode)
            else if strOpCode = ''USR_MSG___'' then
              (strMessageContent @ [nl], updateHistory strHistory strOpCode)
            else if strOpCode = ''D_USR_FLD_'' then
              (let toks = vecTokens strMessageContent
               in if length toks mod 2 \<noteq> 0 then ([], strHistory)
                  else (''Parameters:'' @ [nl] @ print_pairs stod put_double toks,
                        updateHistory strHistory strOpCode))
            else if strOpCode = ''HISTORY___'' then
              (concat (map (\<lambda>e. e @ [nl]) strHistory), strHistory)
            else ([], strHistory))
      else ([], strHistory))"

text \<open>
  Successive calls on one deque, as \<^verbatim>\<open>main\<close> makes them: the history after parsing
  the inputs in order.
\<close>

definition parse_all ::
  "(string \<Rightarrow> conv_error + 'd) \<Rightarrow> ('d \<Rightarrow> string) \<Rightarrow> string list \<Rightarrow> string list
     \<Rightarrow> string list" where
  "parse_all stod put_double inputs strHistory =
     foldl (\<lambda>h strInput. snd (parseCommand stod put_double strInput h)) strHistory inputs"

text \<open>The four opcodes that carry data; \<^verbatim>\<open>HISTORY___\<close> is not one of them.\<close>

definition data_opcodes :: "string set" where
  "data_opcodes = {''RUN_NO____'', ''POLAR_NO__'', ''USR_MSG___'', ''D_USR_FLD_''}"

section \<open>Notions of the specification\<close>

text \<open>
  A framed message: a ten-character opcode, a payload and the closing \<^verbatim>\<open>#\<close>.
\<close>

definition frame :: "string \<times> string \<Rightarrow> string" where
  "frame m = fst m @ snd m @ ''#''"

text \<open>
  Splitting a payload on commas as the specification words it: the text between two
  commas, before the first and after the last one, each a token; the empty tokens are
  then dropped.
\<close>

fun split_commas :: "string \<Rightarrow> string list" where
  "split_commas [] = [[]]"
| "split_commas (c # cs) =
     (if c = CHR '','' then [] # split_commas cs
      else (case split_commas cs of
              [] \<Rightarrow> [[c]]
            | t # ts \<Rightarrow> (c # t) # ts))"

definition spec_tokens :: "string \<Rightarrow> string list" where
  "spec_tokens p = filter (\<lambda>t. t \<noteq> []) (split_commas p)"

text \<open>The parameter names of a token list: the first token of every pair.\<close>

fun names_of :: "string list \<Rightarrow> string list" where
  "names_of (name # val # rest) = name # names_of rest"
| "names_of _ = []"

text \<open>
  A message, given as opcode and payload, that the specification says is recorded: a data
  opcode, and for \<^verbatim>\<open>D_USR_FLD_\<close> an even number of tokens.
\<close>

definition recorded_message :: "string \<times> string \<Rightarrow> bool" where
  "recorded_message m =
     (fst m = ''RUN_NO____'' \<or> fst m = ''POLAR_NO__'' \<or> fst m = ''USR_MSG___'' \<or>
      (fst m = ''D_USR_FLD_'' \<and> length (spec_tokens (snd m)) mod 2 = 0))"

text \<open>
  The strict reading of an integer payload: an optional sign, then decimal digits and
  nothing else, the number fitting \<^verbatim>\<open>int\<close>.
\<close>

definition strict_int_payload :: "string \<Rightarrow> bool" where
  "strict_int_payload p =
     (let (neg, body) = strip_sign p;
          v = (if neg then - digits_val body else digits_val body)
      in body \<noteq> [] \<and> list_all isdigit body \<and> INT_MIN \<le> v \<and> v \<le> INT_MAX)"

text \<open>
  The lenient reading: the payload is white space, an optional sign, a run of at least one
  digit that ends where the payload ends or at a character that is no digit, and anything
  after it; \<open>n\<close> is the number the sign and the digits denote, and it fits \<^verbatim>\<open>int\<close>.
\<close>

definition reads_int :: "string \<Rightarrow> int \<Rightarrow> bool" where
  "reads_int p n =
     (\<exists>ws sg ds rest.
        p = ws @ sg @ ds @ rest \<and> list_all isspace ws \<and>
        (sg = [] \<or> sg = ''+'' \<or> sg = ''-'') \<and>
        ds \<noteq> [] \<and> list_all isdigit ds \<and>
        (rest = [] \<or> \<not> isdigit (hd rest)) \<and>
        n = (if sg = ''-'' then - digits_val ds else digits_val ds) \<and>
        INT_MIN \<le> n \<and> n \<le> INT_MAX)"

section \<open>An instance of the floating-point parameters\<close>

text \<open>
  To evaluate the parser on a concrete input the two parameters need values. The inputs
  evaluated below hold no parameter value that is a number, so a conversion that raises
  \<^verbatim>\<open>invalid_argument\<close> on every token does what \<^verbatim>\<open>std::stod\<close> does on each token
  it is given there.
\<close>

definition stod_reject :: "string \<Rightarrow> conv_error + unit" where
  "stod_reject s = Inl invalid_argument"

definition put_unit :: "unit \<Rightarrow> string" where
  "put_unit d = []"

section \<open>The floating-point conversion and output of the library\<close>

text \<open>
  \<^verbatim>\<open>std::stod(str)\<close> with no position pointer calls \<^verbatim>\<open>strtod\<close>: it skips leading white
  space, reads an optional sign and the longest text that has the form of a floating-point
  number, and converts that text to the nearest \<^verbatim>\<open>double\<close>, ties to even. No such text
  raises \<^verbatim>\<open>invalid_argument\<close>; a range error of \<^verbatim>\<open>strtod\<close> raises \<^verbatim>\<open>out_of_range\<close>.

  A \<^verbatim>\<open>double\<close> is an IEEE 754 binary64 value: \<open>Finite neg m e\<close> is the number
  \<open>m \<cdot> 2\<^sup>e\<close> with the sign \<open>neg\<close>, where \<open>m < 2\<^sup>5\<^sup>3\<close> and \<open>- 1074 \<le> e \<le> 971\<close>.
\<close>

datatype double = Finite bool int int | Infinity bool | NaN bool

text \<open>
  The forms of a number are those of the C standard: decimal digits with an optional point
  and an optional exponent (\<open>Decimal d e\<close> is \<open>d \<cdot> 10\<^sup>e\<close>); \<^verbatim>\<open>0x\<close>, hexadecimal digits
  with an optional point and an optional binary exponent (\<open>Hexadecimal m e\<close> is
  \<open>m \<cdot> 2\<^sup>e\<close>); \<^verbatim>\<open>inf\<close> or \<^verbatim>\<open>infinity\<close>; \<^verbatim>\<open>nan\<close>, which a sequence of letters,
  digits and underscores in parentheses may follow. Letters count in either case.
\<close>

datatype float_literal = Decimal int int | Hexadecimal int int | Inf_literal | Nan_literal

definition tolower :: "char \<Rightarrow> char" where
  "tolower c =
     (if 65 \<le> (of_char c :: int) \<and> (of_char c :: int) \<le> 90 then char_of ((of_char c :: int) + 32)
      else c)"

definition isxdigit :: "char \<Rightarrow> bool" where
  "isxdigit c =
     (isdigit c \<or> (97 \<le> (of_char (tolower c) :: int) \<and> (of_char (tolower c) :: int) \<le> 102))"

definition xdigit_val :: "char \<Rightarrow> int" where
  "xdigit_val c = (if isdigit c then digit_val c else of_char (tolower c) - 87)"

definition xdigits_val :: "string \<Rightarrow> int" where
  "xdigits_val ds = foldl (\<lambda>acc c. 16 * acc + xdigit_val c) 0 ds"

definition is_nan_char :: "char \<Rightarrow> bool" where
  "is_nan_char c =
     (isdigit c \<or> (97 \<le> (of_char (tolower c) :: int) \<and> (of_char (tolower c) :: int) \<le> 122)
      \<or> c = CHR ''_'')"

text \<open>
  An exponent is its mark, an optional sign and at least one decimal digit; where the mark
  is not followed by a digit there is no exponent, and nothing is consumed.
\<close>

definition scan_exponent :: "char \<Rightarrow> string \<Rightarrow> int \<times> string" where
  "scan_exponent mark s =
     (case s of
        [] \<Rightarrow> (0, [])
      | c # t \<Rightarrow>
          if tolower c = mark then
            (let (neg, u) = strip_sign t;
                 ds = takeWhile isdigit u
             in if ds = [] then (0, s)
                else (if neg then - digits_val ds else digits_val ds, dropWhile isdigit u))
          else (0, s))"

text \<open>
  A mantissa is a run of digits, then optionally the point and a run of digits, with at
  least one digit in all.
\<close>

definition scan_fraction :: "(char \<Rightarrow> bool) \<Rightarrow> string \<Rightarrow> string \<times> string" where
  "scan_fraction dig t =
     (case t of
        [] \<Rightarrow> ([], [])
      | c # v \<Rightarrow>
          if c = CHR ''.'' then (takeWhile dig v, dropWhile dig v)
          else ([], t))"

definition scan_mantissa :: "(char \<Rightarrow> bool) \<Rightarrow> string \<Rightarrow> (string \<times> string \<times> string) option" where
  "scan_mantissa dig s =
     (let ip = takeWhile dig s;
          (fp, u) = scan_fraction dig (dropWhile dig s)
      in if ip = [] \<and> fp = [] then None else Some (ip, fp, u))"

definition scan_float ::
  "(char \<Rightarrow> bool) \<Rightarrow> char \<Rightarrow> string \<Rightarrow> ((string \<times> string \<times> int) \<times> string) option" where
  "scan_float dig mark s =
     (case scan_mantissa dig s of
        None \<Rightarrow> None
      | Some (ip, fp, u) \<Rightarrow>
          (let (ex, r) = scan_exponent mark u
           in Some ((ip, fp, ex), r)))"

definition scan_decimal :: "string \<Rightarrow> (float_literal \<times> string) option" where
  "scan_decimal s =
     (case scan_float isdigit (CHR ''e'') s of
        None \<Rightarrow> None
      | Some ((ip, fp, ex), r) \<Rightarrow>
          Some (Decimal (digits_val (ip @ fp)) (ex - int (length fp)), r))"

definition scan_hexadecimal :: "string \<Rightarrow> (float_literal \<times> string) option" where
  "scan_hexadecimal s =
     (case s of
        z # x # t \<Rightarrow>
          if z = CHR ''0'' \<and> tolower x = CHR ''x'' then
            (case scan_float isxdigit (CHR ''p'') t of
               None \<Rightarrow> None
             | Some ((ip, fp, ex), r) \<Rightarrow>
                 Some (Hexadecimal (xdigits_val (ip @ fp)) (ex - 4 * int (length fp)), r))
          else None
      | _ \<Rightarrow> None)"

text \<open>
  The sequence in parentheses after \<^verbatim>\<open>nan\<close> is consumed only when it is closed.
\<close>

definition scan_nan_chars :: "string \<Rightarrow> string" where
  "scan_nan_chars t =
     (case t of
        [] \<Rightarrow> []
      | c # u \<Rightarrow>
          if c = CHR ''('' then
            (case dropWhile is_nan_char u of
               [] \<Rightarrow> t
             | d # w \<Rightarrow> if d = CHR '')'' then w else t)
          else t)"

definition scan_special :: "string \<Rightarrow> (float_literal \<times> string) option" where
  "scan_special s =
     (if map tolower (take 8 s) = ''infinity'' then Some (Inf_literal, drop 8 s)
      else if map tolower (take 3 s) = ''inf'' then Some (Inf_literal, drop 3 s)
      else if map tolower (take 3 s) = ''nan'' then Some (Nan_literal, scan_nan_chars (drop 3 s))
      else None)"

text \<open>
  The three forms start differently, so the first that succeeds is the longest; a text
  that starts with \<^verbatim>\<open>0x\<close> and has no hexadecimal digit there is the decimal number 0.
\<close>

definition scan_literal :: "string \<Rightarrow> (float_literal \<times> string) option" where
  "scan_literal s =
     (case scan_special s of
        Some r \<Rightarrow> Some r
      | None \<Rightarrow>
          (case scan_hexadecimal s of
             Some r \<Rightarrow> Some r
           | None \<Rightarrow> scan_decimal s))"

definition scan_number :: "string \<Rightarrow> (bool \<times> float_literal \<times> string) option" where
  "scan_number s =
     (let (neg, body) = strip_sign (dropWhile isspace s)
      in case scan_literal body of
           None \<Rightarrow> None
         | Some (lit, r) \<Rightarrow> Some (neg, lit, r))"

text \<open>
  The conversion of a positive number given as the fraction \<open>num / den\<close>: the exponent
  \<open>e\<close> with \<open>2\<^sup>5\<^sup>2 \<le> num / (den \<cdot> 2\<^sup>e) < 2\<^sup>5\<^sup>3\<close>, not below that of the subnormal numbers,
  and the quotient rounded to nearest, ties to even. \<open>scaled num den e\<close> is the fraction
  \<open>num / (den \<cdot> 2\<^sup>e)\<close> as a pair.
\<close>

function bit_length :: "int \<Rightarrow> int" where
  "bit_length n = (if n \<le> 0 then 0 else 1 + bit_length (n div 2))"
  by pat_completeness auto
termination
  by (relation "measure nat") auto

declare bit_length.simps [simp del]

definition scaled :: "int \<Rightarrow> int \<Rightarrow> int \<Rightarrow> int \<times> int" where
  "scaled num den e =
     (if 0 \<le> e then (num, den * 2 ^ nat e) else (num * 2 ^ nat (- e), den))"

definition round_even :: "int \<times> int \<Rightarrow> int" where
  "round_even ab =
     (let q = fst ab div snd ab; r = fst ab mod snd ab
      in if snd ab < 2 * r \<or> (2 * r = snd ab \<and> odd q) then q + 1 else q)"

definition round_at :: "int \<times> int \<Rightarrow> int \<Rightarrow> int \<times> int" where
  "round_at ab e =
     (let m = round_even ab
      in if m = 2 ^ 53 then (2 ^ 52, e + 1) else (m, e))"

definition binary_exponent :: "int \<Rightarrow> int \<Rightarrow> int" where
  "binary_exponent num den =
     (let e0 = bit_length num - bit_length den - 53;
          ab = scaled num den e0
      in if 2 ^ 53 \<le> fst ab div snd ab then e0 + 1 else e0)"

text \<open>
  \<^verbatim>\<open>strtod\<close> reports a range error when the result overflows. The C standard leaves the
  report of an underflow to the implementation; the model takes the rule of IEEE 754 that
  the GNU C library follows: an underflow is reported when the result, rounded as if the
  exponent had no lower bound, is below the smallest normal number, and the result is not
  exact.
\<close>

definition round_double :: "bool \<Rightarrow> int \<Rightarrow> int \<Rightarrow> conv_error + double" where
  "round_double neg num den =
     (if num = 0 then Inr (Finite neg 0 0)
      else
        (let e1 = binary_exponent num den;
             tiny = (snd (round_at (scaled num den e1) e1) < - 1074);
             e2 = max e1 (- 1074);
             ab = scaled num den e2;
             inexact = (fst ab mod snd ab \<noteq> 0);
             (m, e) = round_at ab e2
         in if 971 < e then Inl out_of_range
            else if tiny \<and> inexact then Inl out_of_range
            else Inr (Finite neg m e)))"

definition to_double :: "bool \<Rightarrow> float_literal \<Rightarrow> conv_error + double" where
  "to_double neg lit =
     (case lit of
        Inf_literal \<Rightarrow> Inr (Infinity neg)
      | Nan_literal \<Rightarrow> Inr (NaN neg)
      | Decimal d e \<Rightarrow>
          if 0 \<le> e then round_double neg (d * 10 ^ nat e) 1
          else round_double neg d (10 ^ nat (- e))
      | Hexadecimal m e \<Rightarrow>
          if 0 \<le> e then round_double neg (m * 2 ^ nat e) 1
          else round_double neg m (2 ^ nat (- e)))"

definition stod :: "string \<Rightarrow> conv_error + double" where
  "stod s =
     (case scan_number s of
        None \<Rightarrow> Inl invalid_argument
      | Some (neg, lit, r) \<Rightarrow> to_double neg lit)"

text \<open>
  \<^verbatim>\<open>std::cout << d\<close> for a \<^verbatim>\<open>double\<close> in the default stream state is the format
  \<^verbatim>\<open>%g\<close> with precision 6: the exact value is rounded to six significant decimal digits
  (to nearest, ties to even) and written in scientific notation when its decimal exponent
  is below \<open>- 4\<close> or at least 6, in fixed notation otherwise; trailing zeros of the
  fraction, and a point with nothing after it, are removed. \<open>decimal_exponent num den\<close>
  is the exponent \<open>x\<close> with \<open>10\<^sup>x \<le> num / den < 10\<^sup>x\<^sup>+\<^sup>1\<close>.
\<close>

function decimal_digits :: "int \<Rightarrow> int" where
  "decimal_digits n = (if n < 10 then 1 else 1 + decimal_digits (n div 10))"
  by pat_completeness auto
termination
  by (relation "measure nat") auto

declare decimal_digits.simps [simp del]

definition decimal_exponent :: "int \<Rightarrow> int \<Rightarrow> int" where
  "decimal_exponent num den =
     (if den \<le> num then decimal_digits (num div den) - 1
      else
        (let j = decimal_digits (den div num)
         in if num * 10 ^ nat (j - 1) = den then - (j - 1) else - j))"

definition scaled10 :: "int \<Rightarrow> int \<Rightarrow> int \<Rightarrow> int \<times> int" where
  "scaled10 num den x =
     (if 0 \<le> x then (num, den * 10 ^ nat x) else (num * 10 ^ nat (- x), den))"

definition strip_zeros :: "string \<Rightarrow> string" where
  "strip_zeros s = rev (dropWhile (\<lambda>c. c = CHR ''0'') (rev s))"

definition with_point :: "string \<Rightarrow> string \<Rightarrow> string" where
  "with_point ip fp = (if strip_zeros fp = [] then ip else ip @ CHR ''.'' # strip_zeros fp)"

definition show_exponent :: "int \<Rightarrow> string" where
  "show_exponent x =
     CHR ''e'' # (if x < 0 then CHR ''-'' else CHR ''+'')
       # (if \<bar>x\<bar> < 10 then CHR ''0'' # show_digits \<bar>x\<bar> else show_digits \<bar>x\<bar>)"

definition format_g :: "int \<Rightarrow> int \<Rightarrow> string" where
  "format_g num den =
     (let x0 = decimal_exponent num den;
          d0 = round_even (scaled10 num den (x0 - 5));
          (d, x) = (if d0 = 10 ^ 6 then (10 ^ 5, x0 + 1) else (d0, x0));
          ds = show_digits d
      in if x < - 4 \<or> 6 \<le> x then with_point (take 1 ds) (drop 1 ds) @ show_exponent x
         else if 0 \<le> x then with_point (take (nat (x + 1)) ds) (drop (nat (x + 1)) ds)
         else with_point ''0'' (replicate (nat (- x - 1)) (CHR ''0'') @ ds))"

definition put_double :: "double \<Rightarrow> string" where
  "put_double d =
     (case d of
        Finite neg m e \<Rightarrow>
          (if neg then ''-'' else []) @
          (if m = 0 then ''0''
           else if 0 \<le> e then format_g (m * 2 ^ nat e) 1
           else format_g m (2 ^ nat (- e)))
      | Infinity neg \<Rightarrow> (if neg then ''-'' else []) @ ''inf''
      | NaN neg \<Rightarrow> (if neg then ''-'' else []) @ ''nan'')"

text \<open>
  A text that is a number in full: white space, an optional sign, one of the forms, and
  nothing after it.
\<close>

definition number_form :: "string \<Rightarrow> bool" where
  "number_form q = (case scan_number q of None \<Rightarrow> False | Some (neg, lit, r) \<Rightarrow> r = [])"

text \<open>A character that can start a form: no white space and no sign.\<close>

definition starts_literal :: "char \<Rightarrow> bool" where
  "starts_literal c = (\<not> isspace c \<and> c \<noteq> CHR ''+'' \<and> c \<noteq> CHR ''-'')"

section \<open>The parser on a framed message\<close>

text \<open>
  A message made of a ten-character opcode, a payload and the closing \<^verbatim>\<open>#\<close> passes
  the framing test; the message content is the payload, whatever it holds.
\<close>

lemma parse_RUN:
  "parseCommand sd pd (''RUN_NO____'' @ p @ ''#'') h =
     ((case stoi p of
         Inr n \<Rightarrow> ''Run number: '' @ show_int n @ [nl]
       | Inl e \<Rightarrow> ''Invalid Run number: '' @ p @ [nl]),
      updateHistory h ''RUN_NO____'')"
  by (simp add: parseCommand_def)

lemma parse_POLAR:
  "parseCommand sd pd (''POLAR_NO__'' @ p @ ''#'') h =
     ((case stoi p of
         Inr n \<Rightarrow> ''Polar number: '' @ show_int n @ [nl]
       | Inl e \<Rightarrow> ''Invalid Polar number: '' @ p @ [nl]),
      updateHistory h ''POLAR_NO__'')"
  by (simp add: parseCommand_def)

lemma parse_USR:
  "parseCommand sd pd (''USR_MSG___'' @ p @ ''#'') h =
     (p @ [nl], updateHistory h ''USR_MSG___'')"
  by (simp add: parseCommand_def)

lemma parse_FLD:
  "parseCommand sd pd (''D_USR_FLD_'' @ p @ ''#'') h =
     (if length (vecTokens p) mod 2 \<noteq> 0 then ([], h)
      else (''Parameters:'' @ [nl] @ print_pairs sd pd (vecTokens p),
            updateHistory h ''D_USR_FLD_''))"
  by (simp add: parseCommand_def Let_def)

lemma parse_HISTORY:
  "parseCommand sd pd (''HISTORY___'' @ p @ ''#'') h = (concat (map (\<lambda>e. e @ [nl]) h), h)"
  by (simp add: parseCommand_def)

lemma snd_parseCommand:
  "snd (parseCommand sd pd i h) = h \<or>
   (\<exists>opc \<in> data_opcodes. snd (parseCommand sd pd i h) = updateHistory h opc)"
  by (simp add: parseCommand_def Let_def data_opcodes_def)

text \<open>Every input that passes the framing test is such a message.\<close>

lemma framed_form:
  assumes "strInput \<noteq> []" "last strInput = CHR ''#''" "11 \<le> length strInput"
  shows "strInput = take 10 strInput @ butlast (drop 10 strInput) @ ''#''"
proof -
  have "drop 10 strInput \<noteq> []"
    using assms(3) by simp
  moreover from this have "last (drop 10 strInput) = CHR ''#''"
    using assms(2) by simp
  ultimately have "butlast (drop 10 strInput) @ ''#'' = drop 10 strInput"
    using append_butlast_last_id [of "drop 10 strInput"] by simp
  then show ?thesis
    by simp
qed

section \<open>The integer conversion\<close>

lemma isdigit_not_isspace: "isdigit c \<Longrightarrow> \<not> isspace c"
  by (auto simp add: isdigit_def isspace_def)

lemma isdigit_not_sign: "isdigit c \<Longrightarrow> c \<noteq> CHR ''-'' \<and> c \<noteq> CHR ''+''"
  by (auto simp add: isdigit_def)

lemma sign_not_isspace: "\<not> isspace (CHR ''-'')" "\<not> isspace (CHR ''+'')"
  by (simp_all add: isspace_def)

lemma digits_val_snoc: "digits_val (ds @ [c]) = 10 * digits_val ds + digit_val c"
  by (simp add: digits_val_def)

text \<open>
  The conversion on a payload cut into white space, sign, digits and the rest.
\<close>

lemma stoi_scan:
  assumes ws: "list_all isspace ws"
    and sg: "sg = [] \<or> sg = ''+'' \<or> sg = ''-''"
    and ds: "ds \<noteq> []" "list_all isdigit ds"
    and rest: "rest = [] \<or> \<not> isdigit (hd rest)"
  shows "stoi (ws @ sg @ ds @ rest) =
     (let v = (if sg = ''-'' then - digits_val ds else digits_val ds)
      in if v < INT_MIN \<or> INT_MAX < v then Inl out_of_range else Inr v)"
proof -
  obtain d ds' where dd: "ds = d # ds'" using ds(1) by (cases ds) auto
  have d: "isdigit d" using ds(2) dd by simp
  have hd_ns: "\<not> isspace (hd (sg @ ds @ rest))"
    using sg d dd sign_not_isspace isdigit_not_isspace by auto
  have "dropWhile isspace (ws @ sg @ ds @ rest) = dropWhile isspace (sg @ ds @ rest)"
    using ws by (intro dropWhile_append2) (simp add: list_all_iff)
  also have "\<dots> = sg @ ds @ rest"
    using hd_ns by (simp add: dropWhile_eq_self_iff)
  finally have drop: "dropWhile isspace (ws @ sg @ ds @ rest) = sg @ ds @ rest" .
  have strip: "strip_sign (sg @ ds @ rest) = (sg = ''-'', ds @ rest)"
    using sg dd isdigit_not_sign [OF d] by (auto simp add: strip_sign_def)
  have "takeWhile isdigit rest = []"
    using rest by (cases rest) auto
  then have tw: "takeWhile isdigit (ds @ rest) = ds"
    using ds(2) by (simp add: takeWhile_append2 list_all_iff)
  show ?thesis
    using ds(1) by (simp add: stoi_def drop strip tw Let_def)
qed

text \<open>The conversion succeeds with \<open>n\<close> exactly on the payloads of the lenient reading.\<close>

lemma stoi_reads_int: "stoi p = Inr n \<longleftrightarrow> reads_int p n"
proof
  assume r: "reads_int p n"
  then obtain ws sg ds rest where
    p: "p = ws @ sg @ ds @ rest" and ws: "list_all isspace ws"
    and sg: "sg = [] \<or> sg = ''+'' \<or> sg = ''-''"
    and ds: "ds \<noteq> []" "list_all isdigit ds"
    and rest: "rest = [] \<or> \<not> isdigit (hd rest)"
    and n: "n = (if sg = ''-'' then - digits_val ds else digits_val ds)"
    and range: "INT_MIN \<le> n" "n \<le> INT_MAX"
    unfolding reads_int_def by blast
  show "stoi p = Inr n"
    using stoi_scan [OF ws sg ds rest] n range by (simp add: p Let_def)
next
  assume s: "stoi p = Inr n"
  define s1 where "s1 = dropWhile isspace p"
  define sg where "sg = (if s1 \<noteq> [] \<and> hd s1 = CHR ''-'' then ''-''
                         else if s1 \<noteq> [] \<and> hd s1 = CHR ''+'' then ''+'' else [])"
  define body where "body = snd (strip_sign s1)"
  define ds where "ds = takeWhile isdigit body"
  have neg: "fst (strip_sign s1) = (sg = ''-'')"
    by (cases s1) (auto simp add: strip_sign_def sg_def)
  have s1: "s1 = sg @ body"
    by (cases s1) (auto simp add: strip_sign_def sg_def body_def)
  have "body = ds @ dropWhile isdigit body"
    by (simp add: ds_def)
  with s1 have "s1 = sg @ ds @ dropWhile isdigit body"
    by simp
  moreover have "p = takeWhile isspace p @ s1"
    by (simp add: s1_def)
  ultimately have p: "p = takeWhile isspace p @ sg @ ds @ dropWhile isdigit body"
    by simp
  have stoi: "stoi p =
     (let v = (if sg = ''-'' then - digits_val ds else digits_val ds)
      in if ds = [] then Inl invalid_argument
         else if v < INT_MIN \<or> INT_MAX < v then Inl out_of_range
         else Inr v)"
    using neg by (simp add: stoi_def s1_def [symmetric] ds_def body_def split_beta Let_def)
  from s stoi have ne: "ds \<noteq> []"
    by (auto simp add: Let_def split: if_splits)
  from s stoi ne have n: "n = (if sg = ''-'' then - digits_val ds else digits_val ds)"
    and range: "INT_MIN \<le> n" "n \<le> INT_MAX"
    by (auto simp add: Let_def split: if_splits)
  have ws: "list_all isspace (takeWhile isspace p)"
    by (auto simp add: list_all_iff dest: set_takeWhileD)
  have dg: "list_all isdigit ds"
    by (auto simp add: ds_def list_all_iff dest: set_takeWhileD)
  have sg: "sg = [] \<or> sg = ''+'' \<or> sg = ''-''"
    by (simp add: sg_def)
  have rest: "dropWhile isdigit body = [] \<or> \<not> isdigit (hd (dropWhile isdigit body))"
    using hd_dropWhile [of isdigit body] by blast
  show "reads_int p n"
    unfolding reads_int_def using p ws sg ne dg rest n range by blast
qed


text \<open>Printing an integer and converting the text back.\<close>

lemma digit_char:
  assumes "0 \<le> d" "d < 10"
  shows "isdigit (char_of (48 + d))" and "digit_val (char_of (48 + d)) = d"
proof -
  have "(48 + d) mod 256 = 48 + d"
    using assms by simp
  then have "of_char (char_of (48 + d)) = 48 + d"
    by simp
  then show "isdigit (char_of (48 + d))" and "digit_val (char_of (48 + d)) = d"
    using assms by (simp_all add: isdigit_def digit_val_def)
qed

lemma show_digits_props:
  "0 \<le> n \<Longrightarrow>
   show_digits n \<noteq> [] \<and> list_all isdigit (show_digits n) \<and> digits_val (show_digits n) = n"
proof (induction n rule: show_digits.induct)
  case (1 n)
  show ?case
  proof (cases "n < 10")
    case True
    with "1.prems" digit_char [of n] show ?thesis
      by (simp add: show_digits.simps [of n] digits_val_def)
  next
    case False
    have m: "0 \<le> n mod 10" "n mod 10 < 10"
      by simp_all
    from "1.prems" have "0 \<le> n div 10"
      by simp
    with "1.IH" False have ih: "show_digits (n div 10) \<noteq> []"
      "list_all isdigit (show_digits (n div 10))"
      "digits_val (show_digits (n div 10)) = n div 10"
      by simp_all
    from False have unfold:
      "show_digits n = show_digits (n div 10) @ [char_of (48 + n mod 10)]"
      by (simp add: show_digits.simps [of n])
    show ?thesis
      using ih digit_char [OF m]
      by (simp add: unfold digits_val_snoc)
  qed
qed

lemma stoi_show_int:
  assumes "INT_MIN \<le> n" "n \<le> INT_MAX"
  shows "stoi (show_int n) = Inr n"
proof (cases "n < 0")
  case True
  then have pos: "0 \<le> - n" by simp
  note d = show_digits_props [OF pos]
  have "stoi ([] @ ''-'' @ show_digits (- n) @ []) = Inr n"
    using assms d by (subst stoi_scan) (simp_all add: Let_def)
  with True show ?thesis
    by (simp add: show_int_def)
next
  case False
  then have pos: "0 \<le> n" by simp
  note d = show_digits_props [OF pos]
  have "stoi ([] @ [] @ show_digits n @ []) = Inr n"
    using assms d by (subst stoi_scan) (simp_all add: Let_def)
  with False show ?thesis
    by (simp add: show_int_def)
qed

text \<open>A payload of the strict reading is one of the lenient reading.\<close>

lemma strict_reads_int:
  "strict_int_payload p \<Longrightarrow> \<exists>n. reads_int p n"
proof -
  assume s: "strict_int_payload p"
  obtain neg body where sb: "strip_sign p = (neg, body)"
    by (cases "strip_sign p")
  define sg where "sg = (if neg then ''-'' else if p \<noteq> [] \<and> hd p = CHR ''+'' then ''+'' else [])"
  define n where "n = (if neg then - digits_val body else digits_val body)"
  from s sb have b: "body \<noteq> []" "list_all isdigit body" "INT_MIN \<le> n" "n \<le> INT_MAX"
    by (simp_all add: strict_int_payload_def n_def Let_def)
  have p: "p = [] @ sg @ body @ []"
    using sb by (cases p) (auto simp add: strip_sign_def sg_def split: if_splits)
  have sg: "sg = [] \<or> sg = ''+'' \<or> sg = ''-''"
    by (simp add: sg_def)
  have n': "n = (if sg = ''-'' then - digits_val body else digits_val body)"
    by (simp add: n_def sg_def)
  have "reads_int p n"
    unfolding reads_int_def
    using p sg b n' by (intro exI [of _ "[]"] exI [of _ sg] exI [of _ body]) simp
  then show ?thesis ..
qed


section \<open>The value of a parameter\<close>

text \<open>
  For a name of at most 15 characters the line written is decided by \<^verbatim>\<open>std::stod\<close>
  alone: the value line when it returns, the line for an invalid value when it raises
  either exception. Which tokens the library's conversion accepts is the subject of the
  last sections.
\<close>

lemma print_pairs_value:
  "length name \<le> 15 \<Longrightarrow>
   print_pairs sd pd (name # val # rest) =
     (case sd val of
        Inr d \<Rightarrow> name @ '' = '' @ pd d @ [nl]
      | Inl e \<Rightarrow> ''Invalid parameter value for parameter: '' @ name @ [nl])
     @ print_pairs sd pd rest"
  by simp

section \<open>The history\<close>

lemma updateHistory_eq:
  "updateHistory h opc = (if 5 \<le> length h then opc # butlast h else opc # h)"
  by (cases h) (auto simp add: updateHistory_def)

lemma updateHistory_take:
  "length h \<le> 5 \<Longrightarrow> updateHistory h opc = take 5 (opc # h)"
  by (auto simp add: updateHistory_eq butlast_conv_take)

lemma length_updateHistory: "length h \<le> 5 \<Longrightarrow> length (updateHistory h opc) \<le> 5"
  by (simp add: updateHistory_take)

lemma length_parseCommand:
  "length h \<le> 5 \<Longrightarrow> length (snd (parseCommand sd pd i h)) \<le> 5"
  using snd_parseCommand [of sd pd i h] by (auto simp add: length_updateHistory)

lemma length_parse_all:
  "length h \<le> 5 \<Longrightarrow> length (parse_all sd pd inputs h) \<le> 5"
  unfolding parse_all_def
  by (induction inputs arbitrary: h) (simp_all add: length_parseCommand)

lemma set_updateHistory: "set (updateHistory h opc) \<subseteq> insert opc (set h)"
  by (auto simp add: updateHistory_eq dest: in_set_butlastD)

lemma set_parseCommand:
  "set h \<subseteq> data_opcodes \<Longrightarrow> set (snd (parseCommand sd pd i h)) \<subseteq> data_opcodes"
  using snd_parseCommand [of sd pd i h] set_updateHistory by fastforce

lemma set_parse_all:
  "set h \<subseteq> data_opcodes \<Longrightarrow> set (parse_all sd pd inputs h) \<subseteq> data_opcodes"
  unfolding parse_all_def
  by (induction inputs arbitrary: h) (simp_all add: set_parseCommand)

section \<open>The tokens of a parameter list\<close>

lemma split_commas_not_Nil: "split_commas s \<noteq> []"
  by (induction s) (auto split: list.splits)

text \<open>The extraction loop yields the tokens of the specification's split.\<close>

lemma getline_loop_split:
  "filter (\<lambda>t. t \<noteq> []) (getline_loop cur s) =
   filter (\<lambda>t. t \<noteq> []) ((cur @ hd (split_commas s)) # tl (split_commas s))"
proof (induction s arbitrary: cur)
  case Nil
  show ?case by simp
next
  case (Cons c cs)
  obtain t ts where ts: "split_commas cs = t # ts"
    using split_commas_not_Nil [of cs] by (cases "split_commas cs") auto
  show ?case
  proof (cases "c = CHR '',''")
    case True
    with Cons.IH [of "[]"] ts show ?thesis by simp
  next
    case False
    with Cons.IH [of "cur @ [c]"] ts show ?thesis by simp
  qed
qed

lemma vecTokens_spec: "vecTokens p = spec_tokens p"
  using getline_loop_split [of "[]" p] split_commas_not_Nil [of p]
  by (cases "split_commas p") (simp_all add: vecTokens_def spec_tokens_def)

lemma getline_loop_commas:
  "set p \<subseteq> {CHR '',''} \<Longrightarrow> getline_loop [] p = replicate (length p) []"
  by (induction p) auto

lemma vecTokens_commas: "set p \<subseteq> {CHR '',''} \<Longrightarrow> vecTokens p = []"
  by (simp add: vecTokens_def getline_loop_commas)

lemma print_pairs_long_names:
  "\<forall>name \<in> set (names_of toks). 15 < length name \<Longrightarrow>
   print_pairs sd pd toks =
     concat (map (\<lambda>name. ''Parameter name too long: '' @ name @ [nl]) (names_of toks))"
  by (induction toks rule: names_of.induct) simp_all

section \<open>Sequences of recorded messages\<close>

lemma recorded_message_history:
  "recorded_message (opc, p) \<Longrightarrow>
   snd (parseCommand sd pd (frame (opc, p)) h) = updateHistory h opc"
  unfolding recorded_message_def frame_def
  by (auto simp add: parse_RUN parse_POLAR parse_USR parse_FLD vecTokens_spec
      simp del: append.simps)

lemma take_append_take: "take n (xs @ take n ys) = take n (xs @ ys)"
  by simp

lemma parse_all_recorded:
  "\<forall>m \<in> set ms. recorded_message m \<Longrightarrow> length h \<le> 5 \<Longrightarrow>
   parse_all sd pd (map frame ms) h = take 5 (rev (map fst ms) @ h)"
proof (induction ms arbitrary: h)
  case Nil
  then show ?case by (simp add: parse_all_def)
next
  case (Cons m ms)
  obtain opc p where m: "m = (opc, p)" by (cases m)
  from Cons.prems m have rec: "recorded_message (opc, p)" by simp
  have step: "snd (parseCommand sd pd (frame m) h) = take 5 (opc # h)"
    using recorded_message_history [OF rec, of sd pd h]
      updateHistory_take [OF Cons.prems(2), of opc] m
    by simp
  have "parse_all sd pd (map frame (m # ms)) h =
        parse_all sd pd (map frame ms) (take 5 (opc # h))"
    by (simp add: parse_all_def step)
  also have "\<dots> = take 5 (rev (map fst ms) @ take 5 (opc # h))"
    using Cons.prems(1) by (intro Cons.IH) simp_all
  also have "\<dots> = take 5 (rev (map fst (m # ms)) @ h)"
    using take_append_take [of 5 "rev (map fst ms)" "opc # h"] m by simp
  finally show ?case .
qed

section \<open>Framing, history bound and history content\<close>

text \<open>
  Claim C2. An input that is empty, or whose last character is not \<^verbatim>\<open>#\<close>, or that is
  shorter than 11 characters, produces no output and leaves the history as it was.
\<close>

theorem framing_failure_is_noop:
  "strInput = [] \<or> last strInput \<noteq> CHR ''#'' \<or> length strInput < 11
   \<Longrightarrow> parseCommand sd pd strInput h = ([], h)"
  by (auto simp add: parseCommand_def)

theorem framing_failure_is_noop_witness:
  "parseCommand stod_reject put_unit [] [''USR_MSG___''] = ([], [''USR_MSG___''])
   \<and> parseCommand stod_reject put_unit ''RUN_NO____123'' [''USR_MSG___''] = ([], [''USR_MSG___''])
   \<and> parseCommand stod_reject put_unit ''RUN_NO___#'' [''USR_MSG___''] = ([], [''USR_MSG___''])"
  using framing_failure_is_noop [of "[]" stod_reject put_unit "[''USR_MSG___'']"]
    framing_failure_is_noop [of "''RUN_NO____123''" stod_reject put_unit "[''USR_MSG___'']"]
    framing_failure_is_noop [of "''RUN_NO___#''" stod_reject put_unit "[''USR_MSG___'']"]
  by simp

text \<open>
  Claim C3. From the empty history, after any sequence of calls of the parser the history
  holds at most five entries; recording puts the opcode at the front and, when five
  entries are already there, removes the one at the back.
\<close>

theorem history_bounded:
  "length (parse_all sd pd inputs []) \<le> 5
   \<and> updateHistory h opc = (if 5 \<le> length h then opc # butlast h else opc # h)"
  by (simp add: length_parse_all updateHistory_eq)

theorem history_bounded_witness:
  "length (parse_all stod_reject put_unit
      [''RUN_NO____123#'', ''POLAR_NO__2#'', ''USR_MSG___Start Tunnel#'', ''D_USR_FLD_a,x,#'',
       ''RUN_NO____124#'', ''POLAR_NO__3#'', ''HISTORY___#'', ''UNKNOWN___test#''] []) = 5
   \<and> updateHistory [''a'', ''b'', ''c'', ''d'', ''e''] ''f'' = [''f'', ''a'', ''b'', ''c'', ''d'']"
proof -
  have "length (parse_all stod_reject put_unit
      [''RUN_NO____123#'', ''POLAR_NO__2#'', ''USR_MSG___Start Tunnel#'', ''D_USR_FLD_a,x,#'',
       ''RUN_NO____124#'', ''POLAR_NO__3#'', ''HISTORY___#'', ''UNKNOWN___test#''] []) = 5"
    by code_simp
  then show ?thesis
    using history_bounded [of stod_reject put_unit
      "[''RUN_NO____123#'', ''POLAR_NO__2#'', ''USR_MSG___Start Tunnel#'', ''D_USR_FLD_a,x,#'',
       ''RUN_NO____124#'', ''POLAR_NO__3#'', ''HISTORY___#'', ''UNKNOWN___test#'']"
      "[''a'', ''b'', ''c'', ''d'', ''e'']" "''f''"]
    by simp
qed

text \<open>
  Claim C4. From the empty history, after any sequence of calls of the parser every entry
  of the history is one of \<^verbatim>\<open>RUN_NO____\<close>, \<^verbatim>\<open>POLAR_NO__\<close>, \<^verbatim>\<open>USR_MSG___\<close> and
  \<^verbatim>\<open>D_USR_FLD_\<close>; so it holds neither \<^verbatim>\<open>HISTORY___\<close> nor an unknown opcode.
\<close>

theorem history_only_data_opcodes:
  "set (parse_all sd pd inputs []) \<subseteq>
     {''RUN_NO____'', ''POLAR_NO__'', ''USR_MSG___'', ''D_USR_FLD_''}
   \<and> ''HISTORY___'' \<notin> set (parse_all sd pd inputs [])"
proof -
  have "set (parse_all sd pd inputs []) \<subseteq> data_opcodes"
    by (rule set_parse_all) simp
  then show ?thesis
    by (auto simp add: data_opcodes_def)
qed

theorem history_only_data_opcodes_witness:
  "parse_all stod_reject put_unit
      [''HISTORY___#'', ''UNKNOWN___test#'', ''RUN_NO____ABC#'', ''HISTORY___abc#''] []
     = [''RUN_NO____'']
   \<and> ''HISTORY___'' \<notin> set (parse_all stod_reject put_unit
      [''HISTORY___#'', ''UNKNOWN___test#'', ''RUN_NO____ABC#'', ''HISTORY___abc#''] [])"
proof -
  have "parse_all stod_reject put_unit
      [''HISTORY___#'', ''UNKNOWN___test#'', ''RUN_NO____ABC#'', ''HISTORY___abc#''] []
     = [''RUN_NO____'']"
    by code_simp
  then show ?thesis
    using history_only_data_opcodes [of stod_reject put_unit
      "[''HISTORY___#'', ''UNKNOWN___test#'', ''RUN_NO____ABC#'', ''HISTORY___abc#'']"]
    by simp
qed

section \<open>Parameter lists\<close>

text \<open>
  Claim C5. For a framed \<^verbatim>\<open>D_USR_FLD_\<close> message, split the payload on commas and drop
  the empty tokens. With an odd number of tokens the parser writes nothing and does not
  record the opcode; with an even number it writes the line \<^verbatim>\<open>Parameters:\<close> first (the
  lines of the pairs follow) and records the opcode.
\<close>

theorem fld_token_parity:
  "(odd (length (spec_tokens p)) \<longrightarrow>
      parseCommand sd pd (''D_USR_FLD_'' @ p @ ''#'') h = ([], h))
   \<and> (even (length (spec_tokens p)) \<longrightarrow>
      fst (parseCommand sd pd (''D_USR_FLD_'' @ p @ ''#'') h)
        = ''Parameters:'' @ [nl] @ print_pairs sd pd (spec_tokens p)
      \<and> snd (parseCommand sd pd (''D_USR_FLD_'' @ p @ ''#'') h)
        = updateHistory h ''D_USR_FLD_'')"
  by (simp add: parse_FLD vecTokens_spec odd_iff_mod_2_eq_one even_iff_mod_2_eq_zero
      del: append.simps)

theorem fld_token_parity_witness:
  "odd (length (spec_tokens ''a,x,b''))
   \<and> parseCommand stod_reject put_unit ''D_USR_FLD_a,x,b#'' [''USR_MSG___''] = ([], [''USR_MSG___''])
   \<and> even (length (spec_tokens ''a,x,,b,y,''))
   \<and> parseCommand stod_reject put_unit ''D_USR_FLD_a,x,,b,y,#'' [''USR_MSG___'']
       = (''Parameters:'' @ [nl] @ ''Invalid parameter value for parameter: a'' @ [nl]
            @ ''Invalid parameter value for parameter: b'' @ [nl],
          [''D_USR_FLD_'', ''USR_MSG___''])"
proof -
  have t1: "spec_tokens ''a,x,b'' = [''a'', ''x'', ''b'']"
    and t2: "spec_tokens ''a,x,,b,y,'' = [''a'', ''x'', ''b'', ''y'']"
    by (simp_all add: spec_tokens_def)
  show ?thesis
    using fld_token_parity [of "''a,x,b''" stod_reject put_unit "[''USR_MSG___'']"]
      fld_token_parity [of "''a,x,,b,y,''" stod_reject put_unit "[''USR_MSG___'']"]
    by (simp add: t1 t2 stod_reject_def updateHistory_def prod_eq_iff)
qed

text \<open>
  Claim C6, as the specification states it: with an even number of tokens and every
  parameter name longer than 15 characters, only the line \<^verbatim>\<open>Parameters:\<close> is written.
  The message below has one pair whose name has 16 characters; the parser writes the
  header and then a line for the name that is too long.
\<close>

theorem fld_header_only_counterexample:
  "even (length (spec_tokens ''ABCDEFGHIJKLMNOP,x''))
   \<and> names_of (spec_tokens ''ABCDEFGHIJKLMNOP,x'') = [''ABCDEFGHIJKLMNOP'']
   \<and> 15 < length ''ABCDEFGHIJKLMNOP''
   \<and> fst (parseCommand stod_reject put_unit ''D_USR_FLD_ABCDEFGHIJKLMNOP,x#'' [])
       = ''Parameters:'' @ [nl] @ ''Parameter name too long: ABCDEFGHIJKLMNOP'' @ [nl]
   \<and> fst (parseCommand stod_reject put_unit ''D_USR_FLD_ABCDEFGHIJKLMNOP,x#'' [])
       \<noteq> ''Parameters:'' @ [nl]"
proof -
  have t: "spec_tokens ''ABCDEFGHIJKLMNOP,x'' = [''ABCDEFGHIJKLMNOP'', ''x'']"
    by (simp add: spec_tokens_def)
  have "parseCommand stod_reject put_unit (''D_USR_FLD_'' @ ''ABCDEFGHIJKLMNOP,x'' @ ''#'') []
        = (''Parameters:'' @ [nl] @ ''Parameter name too long: ABCDEFGHIJKLMNOP'' @ [nl],
           [''D_USR_FLD_''])"
    unfolding parse_FLD vecTokens_spec t by (simp add: updateHistory_def)
  then show ?thesis
    by (simp add: t)
qed

text \<open>
  Claim C6, amended. For a framed \<^verbatim>\<open>D_USR_FLD_\<close> message with an even number of tokens
  in which every parameter name is longer than 15 characters, the parser writes the line
  \<^verbatim>\<open>Parameters:\<close>, then one line \<^verbatim>\<open>Parameter name too long: <name>\<close> for each pair in
  order, and nothing else; it records the opcode.
\<close>

theorem fld_all_names_too_long:
  assumes "even (length (spec_tokens p))"
    and "\<forall>name \<in> set (names_of (spec_tokens p)). 15 < length name"
  shows "parseCommand sd pd (''D_USR_FLD_'' @ p @ ''#'') h =
     (''Parameters:'' @ [nl] @
        concat (map (\<lambda>name. ''Parameter name too long: '' @ name @ [nl])
                  (names_of (spec_tokens p))),
      updateHistory h ''D_USR_FLD_'')"
  using assms print_pairs_long_names [of "spec_tokens p" sd pd]
  by (simp add: parse_FLD vecTokens_spec even_iff_mod_2_eq_zero del: append.simps)

theorem fld_all_names_too_long_witness:
  "even (length (spec_tokens ''ABCDEFGHIJKLMNOP,x,ABCDEFGHIJKLMNOPQ,y,''))
   \<and> list_all (\<lambda>name. 15 < length name)
         (names_of (spec_tokens ''ABCDEFGHIJKLMNOP,x,ABCDEFGHIJKLMNOPQ,y,''))
   \<and> parseCommand stod_reject put_unit
        ''D_USR_FLD_ABCDEFGHIJKLMNOP,x,ABCDEFGHIJKLMNOPQ,y,#'' [] =
       (''Parameters:'' @ [nl] @ ''Parameter name too long: ABCDEFGHIJKLMNOP'' @ [nl]
          @ ''Parameter name too long: ABCDEFGHIJKLMNOPQ'' @ [nl],
        [''D_USR_FLD_''])"
proof -
  have t: "spec_tokens ''ABCDEFGHIJKLMNOP,x,ABCDEFGHIJKLMNOPQ,y,''
           = [''ABCDEFGHIJKLMNOP'', ''x'', ''ABCDEFGHIJKLMNOPQ'', ''y'']"
    by (simp add: spec_tokens_def)
  have e: "even (length (spec_tokens ''ABCDEFGHIJKLMNOP,x,ABCDEFGHIJKLMNOPQ,y,''))"
    by (simp add: t)
  have l: "\<forall>name \<in> set (names_of (spec_tokens ''ABCDEFGHIJKLMNOP,x,ABCDEFGHIJKLMNOPQ,y,'')).
         15 < length name"
    by (simp add: t)
  show ?thesis
    using e l fld_all_names_too_long [OF e l, of stod_reject put_unit "[]"]
    by (simp add: t updateHistory_def)
qed

text \<open>
  Claim C9. A \<^verbatim>\<open>D_USR_FLD_\<close> message whose payload is empty or holds only commas (such
  as \<^verbatim>\<open>D_USR_FLD_#\<close>) makes the parser write exactly the line \<^verbatim>\<open>Parameters:\<close> and record
  the opcode: no token at all is an even number of tokens.
\<close>

theorem fld_no_tokens:
  "set p \<subseteq> {CHR '',''} \<Longrightarrow>
   parseCommand sd pd (''D_USR_FLD_'' @ p @ ''#'') h =
     (''Parameters:'' @ [nl], updateHistory h ''D_USR_FLD_'')"
  by (simp add: parse_FLD vecTokens_commas del: append.simps)

theorem fld_no_tokens_witness:
  "parseCommand stod_reject put_unit ''D_USR_FLD_#'' [] = (''Parameters:'' @ [nl], [''D_USR_FLD_''])
   \<and> parseCommand stod_reject put_unit ''D_USR_FLD_,,,#'' [''RUN_NO____'']
       = (''Parameters:'' @ [nl], [''D_USR_FLD_'', ''RUN_NO____''])"
  using fld_no_tokens [of "[]" stod_reject put_unit "[]"]
    fld_no_tokens [of "'',,,''" stod_reject put_unit "[''RUN_NO____'']"]
  by (simp add: updateHistory_def)

section \<open>The history query\<close>

text \<open>
  Claim C7. From the empty history, parse framed messages with data opcodes
  \<open>o\<^sub>1, \<dots>, o\<^sub>k\<close>, each of them recorded. Then \<^verbatim>\<open>HISTORY___#\<close> writes \<open>min k 5\<close> lines, the
  opcodes \<open>o\<^sub>k, o\<^sub>k\<^sub>-\<^sub>1, \<dots>\<close> down to the fifth newest, one per line, and leaves the history
  as it is.
\<close>

theorem history_query_order:
  assumes "\<forall>m \<in> set ms. recorded_message m"
  shows "parseCommand sd pd ''HISTORY___#'' (parse_all sd pd (map frame ms) []) =
      (concat (map (\<lambda>opc. opc @ [nl]) (take 5 (rev (map fst ms)))),
       parse_all sd pd (map frame ms) [])
    \<and> length (take 5 (rev (map fst ms))) = min (length ms) 5
    \<and> (\<forall>i < min (length ms) 5.
          take 5 (rev (map fst ms)) ! i = fst (ms ! (length ms - 1 - i)))"
proof -
  have h: "parse_all sd pd (map frame ms) [] = take 5 (rev (map fst ms))"
    using parse_all_recorded [OF assms, of "[]" sd pd] by simp
  have q: "parseCommand sd pd ''HISTORY___#'' (parse_all sd pd (map frame ms) []) =
      (concat (map (\<lambda>opc. opc @ [nl]) (parse_all sd pd (map frame ms) [])),
       parse_all sd pd (map frame ms) [])"
    using parse_HISTORY [of sd pd "[]" "parse_all sd pd (map frame ms) []"] by simp
  have n: "\<forall>i < min (length ms) 5.
          take 5 (rev (map fst ms)) ! i = fst (ms ! (length ms - 1 - i))"
    by (auto simp add: rev_nth)
  show ?thesis
    using q n by (simp add: h)
qed

theorem history_query_order_witness:
  "list_all recorded_message
      [(''RUN_NO____'', ''1''), (''POLAR_NO__'', ''2''), (''USR_MSG___'', ''go''),
       (''D_USR_FLD_'', ''a,x,''), (''RUN_NO____'', ''ABC''), (''POLAR_NO__'', ''3'')]
   \<and> fst (parseCommand stod_reject put_unit ''HISTORY___#''
        (parse_all stod_reject put_unit
           [''RUN_NO____1#'', ''POLAR_NO__2#'', ''USR_MSG___go#'', ''D_USR_FLD_a,x,#'',
            ''RUN_NO____ABC#'', ''POLAR_NO__3#''] []))
     = ''POLAR_NO__'' @ [nl] @ ''RUN_NO____'' @ [nl] @ ''D_USR_FLD_'' @ [nl]
         @ ''USR_MSG___'' @ [nl] @ ''POLAR_NO__'' @ [nl]"
proof -
  have r: "\<forall>m \<in> set [(''RUN_NO____'', ''1''), (''POLAR_NO__'', ''2''), (''USR_MSG___'', ''go''),
        (''D_USR_FLD_'', ''a,x,''), (''RUN_NO____'', ''ABC''), (''POLAR_NO__'', ''3'')].
      recorded_message m"
    by (simp add: recorded_message_def spec_tokens_def)
  show ?thesis
    using r history_query_order [OF r, of stod_reject put_unit]
    by (simp add: frame_def)
qed

section \<open>Integer payloads\<close>

text \<open>
  Claim C1, as the specification states it: the success line is written exactly when the
  payload is an optional sign followed by decimal digits that fit \<^verbatim>\<open>int\<close>, and every
  other payload gets the line for an invalid number. The payload \<^verbatim>\<open>12abc\<close> is not of
  that form, yet the parser writes the success line with the number 12.
\<close>

theorem int_payload_strict_counterexample:
  "\<not> strict_int_payload ''12abc''
   \<and> parseCommand stod_reject put_unit ''RUN_NO____12abc#'' []
       = (''Run number: 12'' @ [nl], [''RUN_NO____''])
   \<and> parseCommand stod_reject put_unit ''POLAR_NO__12abc#'' []
       = (''Polar number: 12'' @ [nl], [''POLAR_NO__''])"
  by code_simp

text \<open>
  Claim C1, amended. For a framed message with opcode \<^verbatim>\<open>RUN_NO____\<close> or
  \<^verbatim>\<open>POLAR_NO__\<close> the parser writes the success line with the number \<open>n\<close> exactly when
  the payload, after any leading white space, starts with an optional sign and at least
  one decimal digit, and the number \<open>n\<close> of the sign and the longest run of digits fits
  \<^verbatim>\<open>int\<close>; what follows the digits is ignored. For every other payload it writes the
  line for an invalid number with the payload. In both cases the opcode is recorded.
\<close>

theorem int_payload_lenient:
  "(reads_int p n \<longrightarrow>
      parseCommand sd pd (''RUN_NO____'' @ p @ ''#'') h
        = (''Run number: '' @ show_int n @ [nl], updateHistory h ''RUN_NO____'')
      \<and> parseCommand sd pd (''POLAR_NO__'' @ p @ ''#'') h
        = (''Polar number: '' @ show_int n @ [nl], updateHistory h ''POLAR_NO__''))
   \<and> ((\<forall>k. \<not> reads_int p k) \<longrightarrow>
      parseCommand sd pd (''RUN_NO____'' @ p @ ''#'') h
        = (''Invalid Run number: '' @ p @ [nl], updateHistory h ''RUN_NO____'')
      \<and> parseCommand sd pd (''POLAR_NO__'' @ p @ ''#'') h
        = (''Invalid Polar number: '' @ p @ [nl], updateHistory h ''POLAR_NO__''))"
proof (intro conjI impI)
  assume "reads_int p n"
  then have s: "stoi p = Inr n"
    by (simp add: stoi_reads_int)
  show "parseCommand sd pd (''RUN_NO____'' @ p @ ''#'') h
        = (''Run number: '' @ show_int n @ [nl], updateHistory h ''RUN_NO____'')"
    unfolding parse_RUN s by simp
  show "parseCommand sd pd (''POLAR_NO__'' @ p @ ''#'') h
        = (''Polar number: '' @ show_int n @ [nl], updateHistory h ''POLAR_NO__'')"
    unfolding parse_POLAR s by simp
next
  assume "\<forall>k. \<not> reads_int p k"
  then have "\<forall>k. stoi p \<noteq> Inr k"
    by (simp add: stoi_reads_int)
  then obtain e where s: "stoi p = Inl e"
    by (cases "stoi p") auto
  show "parseCommand sd pd (''RUN_NO____'' @ p @ ''#'') h
        = (''Invalid Run number: '' @ p @ [nl], updateHistory h ''RUN_NO____'')"
    unfolding parse_RUN s by simp
  show "parseCommand sd pd (''POLAR_NO__'' @ p @ ''#'') h
        = (''Invalid Polar number: '' @ p @ [nl], updateHistory h ''POLAR_NO__'')"
    unfolding parse_POLAR s by simp
qed

theorem int_payload_lenient_witness:
  "parseCommand stod_reject put_unit ''RUN_NO____ -12abc#'' []
     = (''Run number: -12'' @ [nl], [''RUN_NO____''])
   \<and> parseCommand stod_reject put_unit ''POLAR_NO__ -12abc#'' []
     = (''Polar number: -12'' @ [nl], [''POLAR_NO__''])
   \<and> parseCommand stod_reject put_unit ''RUN_NO____ABC#'' []
     = (''Invalid Run number: ABC'' @ [nl], [''RUN_NO____''])
   \<and> parseCommand stod_reject put_unit ''POLAR_NO__2147483648#'' []
     = (''Invalid Polar number: 2147483648'' @ [nl], [''POLAR_NO__''])"
proof -
  have "stoi '' -12abc'' = Inr (- 12)"
    by code_simp
  then have r: "reads_int '' -12abc'' (- 12)"
    by (simp add: stoi_reads_int)
  have "stoi ''ABC'' = Inl invalid_argument"
    by code_simp
  then have a: "\<forall>k. \<not> reads_int ''ABC'' k"
    by (simp add: stoi_reads_int [symmetric])
  have "stoi ''2147483648'' = Inl out_of_range"
    by code_simp
  then have b: "\<forall>k. \<not> reads_int ''2147483648'' k"
    by (simp add: stoi_reads_int [symmetric])
  have s: "show_int (- 12) = ''-12''"
    by code_simp
  show ?thesis
    using r a b
      int_payload_lenient [of "'' -12abc''" "- 12" stod_reject put_unit "[]"]
      int_payload_lenient [of "''ABC''" 0 stod_reject put_unit "[]"]
      int_payload_lenient [of "''2147483648''" 0 stod_reject put_unit "[]"]
    by (simp add: s updateHistory_def)
qed

text \<open>
  Claim C8. For every integer \<open>n\<close> of the range of \<^verbatim>\<open>int\<close>, parsing
  \<^verbatim>\<open>RUN_NO____\<close> followed by the decimal text of \<open>n\<close> and \<^verbatim>\<open>#\<close> writes exactly the
  line \<^verbatim>\<open>Run number: \<close> followed by that text.
\<close>

theorem run_number_round_trip:
  "INT_MIN \<le> n \<Longrightarrow> n \<le> INT_MAX \<Longrightarrow>
   fst (parseCommand sd pd (''RUN_NO____'' @ show_int n @ ''#'') h)
     = ''Run number: '' @ show_int n @ [nl]"
  unfolding parse_RUN by (simp add: stoi_show_int)

theorem run_number_round_trip_witness:
  "fst (parseCommand stod_reject put_unit ''RUN_NO____-2147483648#'' [])
     = ''Run number: -2147483648'' @ [nl]
   \<and> fst (parseCommand stod_reject put_unit ''RUN_NO____2147483647#'' [])
     = ''Run number: 2147483647'' @ [nl]
   \<and> fst (parseCommand stod_reject put_unit ''RUN_NO____0#'' [])
     = ''Run number: 0'' @ [nl]"
proof -
  have s: "show_int (- 2147483648) = ''-2147483648''" "show_int 2147483647 = ''2147483647''"
    "show_int 0 = ''0''"
    by code_simp+
  show ?thesis
    using run_number_round_trip [of "- 2147483648" stod_reject put_unit "[]"]
      run_number_round_trip [of 2147483647 stod_reject put_unit "[]"]
      run_number_round_trip [of 0 stod_reject put_unit "[]"]
    by (simp add: s INT_MIN_def INT_MAX_def)
qed

section \<open>Scanning a number: what is consumed, and what follows\<close>

text \<open>
  Two facts about each part of the scan. The part of the text it consumes is that part in
  full, with the same result; and a text that is the part in full is still consumed, or
  more is, when other text follows it.
\<close>

lemma takeWhile_app:
  "takeWhile P (a @ b) = (if list_all P a then a @ takeWhile P b else takeWhile P a)"
  by (induction a) auto

lemma dropWhile_app:
  "dropWhile P (a @ b) = (if list_all P a then dropWhile P b else dropWhile P a @ b)"
  by (induction a) auto

lemma list_all_takeWhile: "list_all P (takeWhile P s)"
  by (induction s) auto

lemma dropWhile_Nil_all: "dropWhile P s = [] \<Longrightarrow> list_all P s"
  by (induction s) (auto split: if_splits)

lemma dropWhile_Cons_not: "dropWhile P s = c # t \<Longrightarrow> \<not> P c"
  using hd_dropWhile [of P s] by auto

lemma dropWhile_Cons_not_all: "dropWhile P s = c # t \<Longrightarrow> \<not> list_all P s"
  by (induction s) (auto split: if_splits)

lemma strip_sign_length: "length (snd (strip_sign s)) \<le> length s"
  by (cases s) (auto simp add: strip_sign_def)

lemma scan_fraction_length: "length (snd (scan_fraction dig t)) \<le> length t"
  using length_dropWhile_le [of dig "tl t"]
  by (cases t) (auto simp add: scan_fraction_def)

lemma scan_exponent_length: "length (snd (scan_exponent mark s)) \<le> length s"
proof (cases s)
  case Nil
  then show ?thesis by (simp add: scan_exponent_def)
next
  case (Cons c t)
  have "length (dropWhile isdigit (snd (strip_sign t))) \<le> length t"
    using length_dropWhile_le [of isdigit "snd (strip_sign t)"] strip_sign_length [of t]
    by simp
  then show ?thesis
    using Cons by (auto simp add: scan_exponent_def Let_def split_beta)
qed

text \<open>The part an exponent scan consumes is an exponent in full.\<close>

lemma scan_exponent_consumed:
  assumes "scan_exponent mark s = (x, r)"
  shows "\<exists>q. s = q @ r \<and> scan_exponent mark q = (x, [])"
proof (cases "r = s")
  case True
  with assms have "x = 0"
    using length_dropWhile_le [of isdigit "snd (strip_sign (tl s))"] strip_sign_length [of "tl s"]
    by (cases s) (auto simp add: scan_exponent_def Let_def split_beta split: if_splits)
  with True show ?thesis
    by (intro exI [of _ "[]"]) (simp add: scan_exponent_def)
next
  case False
  with assms obtain c t where s: "s = c # t" and c: "tolower c = mark"
    by (cases s) (auto simp add: scan_exponent_def Let_def split_beta split: if_splits)
  obtain neg u where st: "strip_sign t = (neg, u)"
    by (cases "strip_sign t")
  from assms False s c st have ds: "takeWhile isdigit u \<noteq> []"
    and x: "x = (if neg then - digits_val (takeWhile isdigit u) else digits_val (takeWhile isdigit u))"
    and r: "r = dropWhile isdigit u"
    by (auto simp add: scan_exponent_def Let_def split: if_splits)
  define sg where "sg = take (length t - length u) t"
  have t: "t = sg @ u" and sg: "strip_sign (sg @ takeWhile isdigit u) = (neg, takeWhile isdigit u)"
    using st ds by (cases t; cases "takeWhile isdigit u";
      auto simp add: strip_sign_def sg_def split: if_splits dest: isdigit_not_sign set_takeWhileD)+
  have "s = (c # sg @ takeWhile isdigit u) @ r"
    using s t r by simp
  moreover have "scan_exponent mark (c # sg @ takeWhile isdigit u) = (x, [])"
    using c sg ds x by (auto simp add: scan_exponent_def Let_def dest: set_takeWhileD)
  ultimately show ?thesis
    by blast
qed

lemma takeWhile_all: "list_all P a \<Longrightarrow> takeWhile P a = a"
  by (induction a) auto

lemma dropWhile_all: "list_all P a \<Longrightarrow> dropWhile P a = []"
  by (induction a) auto

lemma strip_sign_app:
  "t \<noteq> [] \<Longrightarrow> strip_sign (t @ r) = (fst (strip_sign t), snd (strip_sign t) @ r)"
  by (cases t) (auto simp add: strip_sign_def)

text \<open>An exponent in full stays one, or grows, when more text follows.\<close>

lemma scan_exponent_extend:
  assumes "snd (scan_exponent mark q) = []"
  shows "length (snd (scan_exponent mark (q @ r))) \<le> length r"
proof (cases q)
  case Nil
  then show ?thesis
    using scan_exponent_length [of mark r] by simp
next
  case (Cons c t)
  obtain neg u where st: "strip_sign t = (neg, u)"
    by (cases "strip_sign t")
  from assms Cons st have c: "tolower c = mark" and ds: "takeWhile isdigit u \<noteq> []"
    and dw: "dropWhile isdigit u = []"
    by (auto simp add: scan_exponent_def Let_def split: if_splits)
  from ds have "u \<noteq> []" by auto
  with st have "t \<noteq> []"
    by (cases t) (auto simp add: strip_sign_def)
  then have st': "strip_sign (t @ r) = (neg, u @ r)"
    using st by (simp add: strip_sign_app)
  have all: "list_all isdigit u"
    using dw by (rule dropWhile_Nil_all)
  with \<open>u \<noteq> []\<close> have "takeWhile isdigit (u @ r) \<noteq> []"
    by (simp add: takeWhile_app)
  moreover have "dropWhile isdigit (u @ r) = dropWhile isdigit r"
    using all by (simp add: dropWhile_app)
  ultimately show ?thesis
    using Cons c st' length_dropWhile_le [of isdigit r]
    by (simp add: scan_exponent_def Let_def)
qed

text \<open>
  The part a mantissa scan consumes is a mantissa in full, and the scan stops at the
  same place whatever follows the character it stopped at.
\<close>

lemma scan_mantissa_consumed:
  assumes point: "\<not> dig (CHR ''.'')"
    and scan: "scan_mantissa dig s = Some (ip, fp, u)"
  shows "\<exists>q. s = q @ u \<and>
           (\<forall>v. v = [] \<or> (u \<noteq> [] \<and> v \<noteq> [] \<and> hd v = hd u)
                \<longrightarrow> scan_mantissa dig (q @ v) = Some (ip, fp, v))"
proof -
  define a where "a = takeWhile dig s"
  define b where "b = dropWhile dig s"
  have s: "s = a @ b"
    by (simp add: a_def b_def)
  have a: "list_all dig a"
    by (simp add: a_def list_all_takeWhile)
  from scan have ip: "ip = a" and fr: "scan_fraction dig b = (fp, u)"
    and ne: "a \<noteq> [] \<or> fp \<noteq> []"
    by (auto simp add: scan_mantissa_def a_def b_def Let_def split_beta split: if_splits)
  show ?thesis
  proof (cases b)
    case Nil
    with fr have "fp = []" "u = []"
      by (simp_all add: scan_fraction_def)
    with s Nil scan show ?thesis
      by (intro exI [of _ s]) auto
  next
    case (Cons c w)
    then have c: "\<not> dig c"
      using dropWhile_Cons_not [of dig s c w] by (simp add: b_def)
    show ?thesis
    proof (cases "c = CHR ''.''")
      case False
      with fr Cons have fp: "fp = []" and u: "u = c # w"
        by (simp_all add: scan_fraction_def)
      have "scan_mantissa dig (a @ v) = Some (ip, fp, v)"
        if "v = [] \<or> (v \<noteq> [] \<and> hd v = c)" for v
      proof (cases v)
        case Nil
        with a ne fp ip show ?thesis
          by (simp add: scan_mantissa_def takeWhile_app dropWhile_app scan_fraction_def
              takeWhile_all dropWhile_all)
      next
        case (Cons d v')
        with that have "d = c" by simp
        with Cons a ne fp ip c False show ?thesis
          by (simp add: scan_mantissa_def takeWhile_app dropWhile_app scan_fraction_def
              takeWhile_all dropWhile_all)
      qed
      with s Cons u show ?thesis
        by (intro exI [of _ a]) auto
    next
      case True
      with fr Cons have fp: "fp = takeWhile dig w" and u: "u = dropWhile dig w"
        by (simp_all add: scan_fraction_def)
      have fpall: "list_all dig fp"
        by (simp add: fp list_all_takeWhile)
      have "scan_mantissa dig ((a @ CHR ''.'' # fp) @ v) = Some (ip, fp, v)"
        if "v = [] \<or> (u \<noteq> [] \<and> v \<noteq> [] \<and> hd v = hd u)" for v
      proof (cases v)
        case Nil
        with a ne ip point fpall show ?thesis
          by (simp add: scan_mantissa_def takeWhile_app dropWhile_app scan_fraction_def
              takeWhile_all dropWhile_all)
      next
        case (Cons d v')
        with that have "u \<noteq> []" "d = hd u" by auto
        then have "\<not> dig d"
          using dropWhile_Cons_not [of dig w "hd u" "tl u"] u by simp
        with Cons a ne ip point fpall show ?thesis
          by (simp add: scan_mantissa_def takeWhile_app dropWhile_app scan_fraction_def
              takeWhile_all dropWhile_all)
      qed
      moreover have "s = (a @ CHR ''.'' # fp) @ u"
        using s Cons True fp u by simp
      ultimately show ?thesis
        by blast
    qed
  qed
qed

text \<open>A mantissa in full stays one, or grows, when more text follows.\<close>

lemma scan_mantissa_extend:
  assumes "scan_mantissa dig q = Some (ip, fp, [])"
  shows "\<exists>ip' fp' r'. scan_mantissa dig (q @ r) = Some (ip', fp', r') \<and> length r' \<le> length r"
proof -
  define b where "b = dropWhile dig q"
  from assms have fr: "scan_fraction dig b = (fp, [])"
    and ne: "takeWhile dig q \<noteq> [] \<or> fp \<noteq> []"
    by (auto simp add: scan_mantissa_def b_def Let_def split_beta split: if_splits)
  show ?thesis
  proof (cases b)
    case Nil
    then have all: "list_all dig q"
      by (simp add: b_def dropWhile_Nil_all)
    with ne fr Nil have "q \<noteq> []"
      by (auto simp add: scan_fraction_def)
    have "length (snd (scan_fraction dig (dropWhile dig r))) \<le> length r"
      using scan_fraction_length [of dig "dropWhile dig r"] length_dropWhile_le [of dig r]
      by simp
    with all \<open>q \<noteq> []\<close> show ?thesis
      by (cases "scan_fraction dig (dropWhile dig r)")
        (simp add: scan_mantissa_def takeWhile_app dropWhile_app Let_def)
  next
    case (Cons c w)
    with fr have c: "c = CHR ''.''" and fp: "fp = takeWhile dig w" and dw: "dropWhile dig w = []"
      by (auto simp add: scan_fraction_def split: if_splits)
    have nall: "\<not> list_all dig q"
      using Cons dropWhile_Cons_not_all [of dig q c w] by (simp add: b_def)
    have wall: "list_all dig w"
      using dw by (rule dropWhile_Nil_all)
    then have "fp = w"
      by (simp add: fp takeWhile_eq_all_conv list_all_iff)
    with ne wall nall Cons c show ?thesis
      using length_dropWhile_le [of dig r]
      by (auto simp add: scan_mantissa_def takeWhile_app dropWhile_app Let_def scan_fraction_def
          b_def [symmetric] takeWhile_all dropWhile_all)
  qed
qed

text \<open>Mantissa and exponent together.\<close>

lemma scan_float_consumed:
  assumes point: "\<not> dig (CHR ''.'')"
    and scan: "scan_float dig mark s = Some (x, r)"
  shows "\<exists>q. s = q @ r \<and> scan_float dig mark q = Some (x, [])"
proof -
  from scan obtain ip fp u ex where m: "scan_mantissa dig s = Some (ip, fp, u)"
    and e: "scan_exponent mark u = (ex, r)" and x: "x = (ip, fp, ex)"
    by (auto simp add: scan_float_def split: option.splits prod.splits)
  from scan_mantissa_consumed [OF point m] obtain q1 where q1: "s = q1 @ u"
    and loc: "\<And>v. v = [] \<or> (u \<noteq> [] \<and> v \<noteq> [] \<and> hd v = hd u)
                \<Longrightarrow> scan_mantissa dig (q1 @ v) = Some (ip, fp, v)"
    by blast
  from scan_exponent_consumed [OF e] obtain q2 where q2: "u = q2 @ r"
    and e2: "scan_exponent mark q2 = (ex, [])"
    by blast
  have "q2 = [] \<or> (u \<noteq> [] \<and> q2 \<noteq> [] \<and> hd q2 = hd u)"
    using q2 by (cases q2) auto
  then have "scan_mantissa dig (q1 @ q2) = Some (ip, fp, q2)"
    by (rule loc)
  then have "scan_float dig mark (q1 @ q2) = Some (x, [])"
    using e2 x by (simp add: scan_float_def)
  moreover have "s = (q1 @ q2) @ r"
    using q1 q2 by simp
  ultimately show ?thesis
    by blast
qed

lemma scan_float_extend:
  assumes point: "\<not> dig (CHR ''.'')"
    and scan: "scan_float dig mark q = Some (x, [])"
  shows "\<exists>x' r'. scan_float dig mark (q @ r) = Some (x', r') \<and> length r' \<le> length r"
proof -
  from scan obtain ip fp u ex where m: "scan_mantissa dig q = Some (ip, fp, u)"
    and e: "scan_exponent mark u = (ex, [])"
    by (auto simp add: scan_float_def split: option.splits prod.splits)
  show ?thesis
  proof (cases u)
    case Nil
    with scan_mantissa_extend [of dig q ip fp r] m obtain ip' fp' r1 where
      m': "scan_mantissa dig (q @ r) = Some (ip', fp', r1)" and l: "length r1 \<le> length r"
      by blast
    obtain ex' r' where e': "scan_exponent mark r1 = (ex', r')"
      by (cases "scan_exponent mark r1")
    with scan_exponent_length [of mark r1] l have "length r' \<le> length r"
      by simp
    with m' e' show ?thesis
      by (simp add: scan_float_def)
  next
    case (Cons c t)
    from scan_mantissa_consumed [OF point m] obtain q1 where q1: "q = q1 @ u"
      and loc: "\<And>v. v = [] \<or> (u \<noteq> [] \<and> v \<noteq> [] \<and> hd v = hd u)
                  \<Longrightarrow> scan_mantissa dig (q1 @ v) = Some (ip, fp, v)"
      by blast
    have "scan_mantissa dig (q1 @ (u @ r)) = Some (ip, fp, u @ r)"
      using Cons by (intro loc) simp
    then have m': "scan_mantissa dig (q @ r) = Some (ip, fp, u @ r)"
      using q1 by simp
    obtain ex' r' where e': "scan_exponent mark (u @ r) = (ex', r')"
      by (cases "scan_exponent mark (u @ r)")
    with scan_exponent_extend [of mark u r] e have "length r' \<le> length r"
      by simp
    with m' e' show ?thesis
      by (simp add: scan_float_def)
  qed
qed

lemma scan_float_length:
  "scan_float dig mark s = Some (x, r) \<Longrightarrow> length r \<le> length s"
proof -
  assume "scan_float dig mark s = Some (x, r)"
  then obtain ip fp u ex where m: "scan_mantissa dig s = Some (ip, fp, u)"
    and e: "scan_exponent mark u = (ex, r)"
    by (auto simp add: scan_float_def split: option.splits prod.splits)
  from m have "u = snd (scan_fraction dig (dropWhile dig s))"
    by (auto simp add: scan_mantissa_def Let_def split_beta split: if_splits)
  then have "length u \<le> length s"
    using scan_fraction_length [of dig "dropWhile dig s"] length_dropWhile_le [of dig s]
    by simp
  with scan_exponent_length [of mark u] e show ?thesis
    by simp
qed

text \<open>The first character of a mantissa is a digit or the point.\<close>

lemma scan_float_hd:
  "scan_float dig mark s = Some (x, r) \<Longrightarrow> s \<noteq> [] \<and> (dig (hd s) \<or> hd s = CHR ''.'')"
  by (cases s)
    (auto simp add: scan_float_def scan_mantissa_def scan_fraction_def Let_def
      split: option.splits prod.splits if_splits)

lemma not_digit_point: "\<not> isdigit (CHR ''.'')" "\<not> isxdigit (CHR ''.'')"
  by (simp_all add: isdigit_def isxdigit_def tolower_def)

lemma starts_literal_digit: "isdigit c \<or> c = CHR ''.'' \<Longrightarrow> starts_literal c"
  by (auto simp add: starts_literal_def isdigit_def isspace_def)

lemma starts_literal_letter:
  "tolower c = CHR ''i'' \<or> tolower c = CHR ''n'' \<Longrightarrow> starts_literal c"
  by (auto simp add: starts_literal_def tolower_def isspace_def split: if_splits)

lemma tolower_digit: "isdigit c \<or> c = CHR ''.'' \<Longrightarrow> tolower c = c"
  by (auto simp add: tolower_def isdigit_def)

lemma not_letter_digit:
  "isdigit c \<or> c = CHR ''.'' \<Longrightarrow> tolower c \<noteq> CHR ''i'' \<and> tolower c \<noteq> CHR ''n''"
  by (auto simp add: tolower_def isdigit_def)

lemma x_not_digit: "tolower x = CHR ''x'' \<Longrightarrow> \<not> isdigit x \<and> x \<noteq> CHR ''.'' \<and> tolower x \<noteq> CHR ''e''"
  by (auto simp add: tolower_def isdigit_def split: if_splits)

section \<open>Infinity and not-a-number\<close>

lemma scan_nan_chars_length: "length (scan_nan_chars t) \<le> length t"
  using length_dropWhile_le [of is_nan_char "tl t"]
  by (cases t) (auto simp add: scan_nan_chars_def split: list.splits)

lemma scan_nan_chars_consumed:
  "\<exists>q. t = q @ scan_nan_chars t \<and> scan_nan_chars q = []
        \<and> (\<forall>r. scan_nan_chars q = [] \<and> q \<noteq> [] \<longrightarrow> scan_nan_chars (q @ r) = r)"
proof (cases "scan_nan_chars t = t")
  case True
  then show ?thesis
    by (intro exI [of _ "[]"]) (simp add: scan_nan_chars_def)
next
  case False
  then obtain u w where t: "t = CHR ''('' # u" and dw: "dropWhile is_nan_char u = CHR '')'' # w"
    and r: "scan_nan_chars t = w"
    by (auto simp add: scan_nan_chars_def split: list.splits if_splits)
  define a where "a = takeWhile is_nan_char u"
  have u: "u = a @ CHR '')'' # w"
    using dw takeWhile_dropWhile_id [of is_nan_char u] by (simp add: a_def)
  have a: "list_all is_nan_char a"
    by (simp add: a_def list_all_takeWhile)
  have cl: "\<not> is_nan_char (CHR '')'')"
    by (simp add: is_nan_char_def isdigit_def tolower_def)
  have "scan_nan_chars ((CHR ''('' # a @ '')'') @ r) = r" for r
    using a cl by (simp add: scan_nan_chars_def dropWhile_app)
  from this this [of "[]"] t u r show ?thesis
    by (intro exI [of _ "CHR ''('' # a @ '')''"]) simp
qed

lemma scan_special_length3:
  "scan_special s = Some (lit, r) \<Longrightarrow> 3 \<le> length s \<and> (tolower (hd s) = CHR ''i'' \<or> tolower (hd s) = CHR ''n'')"
proof -
  assume a: "scan_special s = Some (lit, r)"
  have *: "3 \<le> length s \<and> tolower (hd s) = c" if "map tolower (take 3 s) = [c, d, e]" for c d e
  proof -
    from that have "length (take 3 s) = 3"
      using length_map [of tolower "take 3 s"] by simp
    then have l: "3 \<le> length s" by simp
    then obtain x y z t where "s = x # y # z # t"
      by (cases s; cases "tl s"; cases "tl (tl s)") auto
    with that l show ?thesis by simp
  qed
  have **: "3 \<le> length s \<and> tolower (hd s) = CHR ''i''" if "map tolower (take 8 s) = ''infinity''"
  proof -
    from that have "length (take 8 s) = 8"
      using length_map [of tolower "take 8 s"] by simp
    then have l: "8 \<le> length s" by simp
    then obtain x t where "s = x # t"
      by (cases s) auto
    with that l show ?thesis by simp
  qed
  from a show ?thesis
    using * [of "CHR ''i''" "CHR ''n''" "CHR ''f''"] * [of "CHR ''n''" "CHR ''a''" "CHR ''n''"] **
    by (auto simp add: scan_special_def split: if_splits)
qed

lemma scan_special_consumed:
  assumes "scan_special s = Some (lit, r)"
  shows "\<exists>q. s = q @ r \<and> scan_special q = Some (lit, [])"
proof -
  from scan_special_length3 [OF assms] have l: "3 \<le> length s" by simp
  consider (infinity) "map tolower (take 8 s) = ''infinity''"
    | (inf) "map tolower (take 8 s) \<noteq> ''infinity''" "map tolower (take 3 s) = ''inf''"
    | (nan) "map tolower (take 8 s) \<noteq> ''infinity''" "map tolower (take 3 s) \<noteq> ''inf''"
        "map tolower (take 3 s) = ''nan''"
    using assms by (auto simp add: scan_special_def split: if_splits)
  then show ?thesis
  proof cases
    case infinity
    then have "length (take 8 s) = 8"
      using length_map [of tolower "take 8 s"] by simp
    then have l8: "8 \<le> length s" by simp
    from infinity assms have "lit = Inf_literal" "r = drop 8 s"
      by (simp_all add: scan_special_def)
    with infinity l8 show ?thesis
      by (intro exI [of _ "take 8 s"]) (simp add: scan_special_def)
  next
    case inf
    with assms have lr: "lit = Inf_literal" "r = drop 3 s"
      by (simp_all add: scan_special_def)
    have "map tolower (take 8 (take 3 s)) \<noteq> ''infinity''"
    proof
      assume "map tolower (take 8 (take 3 s)) = ''infinity''"
      then have "length (take 8 (take 3 s)) = 8"
        using length_map [of tolower "take 8 (take 3 s)"] by simp
      then show False by simp
    qed
    with inf lr l show ?thesis
      by (intro exI [of _ "take 3 s"]) (simp add: scan_special_def)
  next
    case nan
    with assms have lr: "lit = Nan_literal" "r = scan_nan_chars (drop 3 s)"
      by (simp_all add: scan_special_def)
    from scan_nan_chars_consumed [of "drop 3 s"] obtain q where
      q: "drop 3 s = q @ scan_nan_chars (drop 3 s)" and qn: "scan_nan_chars q = []"
      by blast
    have s: "s = (take 3 s @ q) @ r"
      using q lr by (metis append_assoc append_take_drop_id)
    have t3: "take 3 (take 3 s @ q) = take 3 s" and d3: "drop 3 (take 3 s @ q) = q"
      using l by simp_all
    have "map tolower (take 8 (take 3 s @ q)) \<noteq> ''infinity''"
    proof
      assume e: "map tolower (take 8 (take 3 s @ q)) = ''infinity''"
      then have "take 3 (map tolower (take 8 (take 3 s @ q))) = ''inf''"
        by simp
      then have "map tolower (take 3 (take 8 (take 3 s @ q))) = ''inf''"
        by (simp only: take_map)
      then have "map tolower (take 3 s) = ''inf''"
        using l by (simp add: min_def)
      with nan show False by simp
    qed
    with nan lr qn t3 d3 have "scan_special (take 3 s @ q) = Some (lit, [])"
      by (simp add: scan_special_def)
    with s show ?thesis
      by blast
  qed
qed

lemma infinity_inf:
  "map tolower (take 8 s) = ''infinity'' \<Longrightarrow> map tolower (take 3 s) = ''inf''"
proof -
  assume "map tolower (take 8 s) = ''infinity''"
  then have "take 3 (map tolower (take 8 s)) = ''inf''"
    by simp
  then have "map tolower (take 3 (take 8 s)) = ''inf''"
    by (simp only: take_map)
  then show ?thesis
    by (simp add: min_def)
qed

lemma map_take_length: "map f (take n s) = t \<Longrightarrow> length t = n \<Longrightarrow> n \<le> length s"
  by (auto simp add: min_def split: if_splits)

lemma scan_special_extend:
  assumes "scan_special q = Some (lit, [])"
  shows "\<exists>lit' r'. scan_special (q @ r) = Some (lit', r') \<and> length r' \<le> length r"
proof -
  consider (infinity) "map tolower (take 8 q) = ''infinity''"
    | (inf) "map tolower (take 8 q) \<noteq> ''infinity''" "map tolower (take 3 q) = ''inf''"
    | (nan) "map tolower (take 8 q) \<noteq> ''infinity''" "map tolower (take 3 q) \<noteq> ''inf''"
        "map tolower (take 3 q) = ''nan''"
    using assms by (auto simp add: scan_special_def split: if_splits)
  then show ?thesis
  proof cases
    case infinity
    then have "8 \<le> length q"
      by (rule map_take_length) simp
    moreover from infinity assms have "drop 8 q = []"
      by (simp add: scan_special_def)
    ultimately have "length q = 8"
      by simp
    with infinity show ?thesis
      by (simp add: scan_special_def)
  next
    case inf
    then have "3 \<le> length q"
      by (intro map_take_length [OF inf(2)]) simp
    moreover from inf assms have "drop 3 q = []"
      by (simp add: scan_special_def)
    ultimately have "length q = 3"
      by simp
    with inf show ?thesis
      by (simp add: scan_special_def)
  next
    case nan
    then have l: "3 \<le> length q"
      by (intro map_take_length [OF nan(3)]) simp
    from nan assms have n: "scan_nan_chars (drop 3 q) = []"
      by (simp add: scan_special_def)
    have t3: "take 3 (q @ r) = take 3 q" and d3: "drop 3 (q @ r) = drop 3 q @ r"
      using l by simp_all
    have ni: "map tolower (take 8 (q @ r)) \<noteq> ''infinity''"
      using infinity_inf [of "q @ r"] nan(2) t3 by auto
    have "length (scan_nan_chars (drop 3 q @ r)) \<le> length r"
    proof (cases "drop 3 q = []")
      case True
      then show ?thesis
        using scan_nan_chars_length [of r] by simp
    next
      case False
      from scan_nan_chars_consumed [of "drop 3 q"] n obtain q' where
        "drop 3 q = q'" "\<forall>r. scan_nan_chars q' = [] \<and> q' \<noteq> [] \<longrightarrow> scan_nan_chars (q' @ r) = r"
        by auto
      with False n show ?thesis
        by simp
    qed
    with nan ni t3 d3 show ?thesis
      by (simp add: scan_special_def)
  qed
qed

section \<open>Decimal and hexadecimal literals\<close>

lemma scan_decimal_consumed:
  assumes "scan_decimal s = Some (lit, r)"
  shows "\<exists>q. s = q @ r \<and> scan_decimal q = Some (lit, [])"
proof -
  from assms obtain x where f: "scan_float isdigit (CHR ''e'') s = Some (x, r)"
    by (auto simp add: scan_decimal_def split: option.splits)
  from scan_float_consumed [OF not_digit_point(1) f] obtain q where
    "s = q @ r" "scan_float isdigit (CHR ''e'') q = Some (x, [])"
    by blast
  with assms f show ?thesis
    by (intro exI [of _ q]) (auto simp add: scan_decimal_def split: option.splits prod.splits)
qed

lemma scan_decimal_extend:
  assumes "scan_decimal q = Some (lit, [])"
  shows "\<exists>lit' r'. scan_decimal (q @ r) = Some (lit', r') \<and> length r' \<le> length r"
proof -
  from assms obtain x where f: "scan_float isdigit (CHR ''e'') q = Some (x, [])"
    by (auto simp add: scan_decimal_def split: option.splits)
  from scan_float_extend [OF not_digit_point(1) f, of r] show ?thesis
    by (auto simp add: scan_decimal_def split: option.splits)
qed

lemma scan_hexadecimal_consumed:
  assumes "scan_hexadecimal s = Some (lit, r)"
  shows "\<exists>q. s = q @ r \<and> scan_hexadecimal q = Some (lit, [])"
proof -
  from assms obtain z x t y where s: "s = z # x # t" and zx: "z = CHR ''0''" "tolower x = CHR ''x''"
    and f: "scan_float isxdigit (CHR ''p'') t = Some (y, r)"
    by (auto simp add: scan_hexadecimal_def split: list.splits if_splits option.splits)
  from scan_float_consumed [OF not_digit_point(2) f] obtain q where
    q: "t = q @ r" "scan_float isxdigit (CHR ''p'') q = Some (y, [])"
    by blast
  with assms s zx f show ?thesis
    by (intro exI [of _ "z # x # q"])
      (auto simp add: scan_hexadecimal_def split: option.splits prod.splits)
qed

lemma scan_hexadecimal_extend:
  assumes "scan_hexadecimal q = Some (lit, [])"
  shows "\<exists>lit' r'. scan_hexadecimal (q @ r) = Some (lit', r') \<and> length r' \<le> length r"
proof -
  from assms obtain z x t y where q: "q = z # x # t" and zx: "z = CHR ''0''" "tolower x = CHR ''x''"
    and f: "scan_float isxdigit (CHR ''p'') t = Some (y, [])"
    by (auto simp add: scan_hexadecimal_def split: list.splits if_splits option.splits)
  from scan_float_extend [OF not_digit_point(2) f, of r] q zx show ?thesis
    by (auto simp add: scan_hexadecimal_def split: option.splits)
qed

lemma scan_hexadecimal_length:
  "scan_hexadecimal s = Some (lit, r) \<Longrightarrow> length r + 2 \<le> length s"
  by (auto simp add: scan_hexadecimal_def split: list.splits if_splits option.splits
      dest: scan_float_length)

text \<open>A decimal literal in full has no \<^verbatim>\<open>x\<close> in second place.\<close>

lemma scan_decimal_second:
  assumes "tolower x = CHR ''x''"
  shows "scan_decimal (z # x # t) \<noteq> Some (lit, [])"
  using x_not_digit [OF assms]
  by (auto simp add: scan_decimal_def scan_float_def scan_mantissa_def scan_fraction_def
      scan_exponent_def Let_def split: option.splits prod.splits if_splits)

lemma scan_decimal_hd:
  "scan_decimal s = Some (lit, r) \<Longrightarrow> s \<noteq> [] \<and> (isdigit (hd s) \<or> hd s = CHR ''.'')"
  by (auto simp add: scan_decimal_def split: option.splits dest: scan_float_hd)

lemma scan_hexadecimal_hd:
  "scan_hexadecimal s = Some (lit, r) \<Longrightarrow> s \<noteq> [] \<and> (isdigit (hd s) \<or> hd s = CHR ''.'')"
  by (auto simp add: scan_hexadecimal_def isdigit_def split: list.splits if_splits)

lemma scan_special_None:
  "s \<noteq> [] \<Longrightarrow> isdigit (hd s) \<or> hd s = CHR ''.'' \<Longrightarrow> scan_special s = None"
  using scan_special_length3 [of s] not_letter_digit [of "hd s"]
  by (cases "scan_special s") auto

section \<open>Literals and numbers\<close>

lemma scan_literal_consumed:
  assumes "scan_literal s = Some (lit, r)"
  shows "\<exists>q. s = q @ r \<and> scan_literal q = Some (lit, [])"
proof (cases "scan_special s")
  case (Some a)
  with assms have "scan_special s = Some (lit, r)"
    by (simp add: scan_literal_def)
  from scan_special_consumed [OF this] show ?thesis
    by (auto simp add: scan_literal_def)
next
  case None
  show ?thesis
  proof (cases "scan_hexadecimal s")
    case (Some a)
    with None assms have h: "scan_hexadecimal s = Some (lit, r)"
      by (simp add: scan_literal_def)
    from scan_hexadecimal_consumed [OF this] obtain q where
      q: "s = q @ r" "scan_hexadecimal q = Some (lit, [])"
      by blast
    from scan_hexadecimal_hd [OF q(2)] have "scan_special q = None"
      by (intro scan_special_None) simp_all
    with q show ?thesis
      by (intro exI [of _ q]) (simp add: scan_literal_def)
  next
    case hex: None
    with None assms have d: "scan_decimal s = Some (lit, r)"
      by (simp add: scan_literal_def)
    from scan_decimal_consumed [OF this] obtain q where
      q: "s = q @ r" "scan_decimal q = Some (lit, [])"
      by blast
    from scan_decimal_hd [OF q(2)] have sp: "scan_special q = None"
      by (intro scan_special_None) simp_all
    have "scan_hexadecimal q = None"
    proof (cases "scan_hexadecimal q")
      case (Some a)
      then obtain z x t where "q = z # x # t" "tolower x = CHR ''x''"
        by (auto simp add: scan_hexadecimal_def split: list.splits if_splits)
      with scan_decimal_second [of x z t lit] q(2) show ?thesis
        by simp
    qed simp
    with sp q show ?thesis
      by (intro exI [of _ q]) (simp add: scan_literal_def)
  qed
qed

lemma scan_literal_extend:
  assumes "scan_literal q = Some (lit, [])"
  shows "\<exists>lit' r'. scan_literal (q @ r) = Some (lit', r') \<and> length r' \<le> length r"
proof (cases "scan_special q")
  case (Some a)
  with assms have "scan_special q = Some (lit, [])"
    by (simp add: scan_literal_def)
  from scan_special_extend [OF this, of r] show ?thesis
    by (auto simp add: scan_literal_def)
next
  case None
  show ?thesis
  proof (cases "scan_hexadecimal q")
    case (Some a)
    with None assms have h: "scan_hexadecimal q = Some (lit, [])"
      by (simp add: scan_literal_def)
    from scan_hexadecimal_hd [OF h] have "scan_special (q @ r) = None"
      by (intro scan_special_None) simp_all
    with scan_hexadecimal_extend [OF h, of r] show ?thesis
      by (auto simp add: scan_literal_def)
  next
    case hex: None
    with None assms have d: "scan_decimal q = Some (lit, [])"
      by (simp add: scan_literal_def)
    from scan_decimal_hd [OF d] have sp: "scan_special (q @ r) = None"
      by (intro scan_special_None) simp_all
    show ?thesis
    proof (cases "scan_hexadecimal (q @ r)")
      case None
      with sp scan_decimal_extend [OF d, of r] show ?thesis
        by (auto simp add: scan_literal_def)
    next
      case (Some a)
      obtain lit' r' where a: "a = (lit', r')"
        by (cases a)
      from Some a obtain z x t where qr: "q @ r = z # x # t" and x: "tolower x = CHR ''x''"
        by (auto simp add: scan_hexadecimal_def split: list.splits if_splits)
      have "length q \<le> 1"
      proof (rule ccontr)
        assume "\<not> length q \<le> 1"
        then obtain t' where "q = z # x # t'"
          using qr by (cases q; cases "tl q") auto
        with scan_decimal_second [OF x, of z t' lit] d show False
          by simp
      qed
      moreover from Some a have "length r' + 2 \<le> length (q @ r)"
        by (intro scan_hexadecimal_length [of _ lit']) simp
      ultimately have "length r' \<le> length r"
        by simp
      with sp Some a show ?thesis
        by (simp add: scan_literal_def)
    qed
  qed
qed

lemma scan_literal_hd:
  assumes "scan_literal s = Some (lit, r)"
  shows "s \<noteq> [] \<and> starts_literal (hd s)"
proof (cases "scan_special s")
  case (Some a)
  then show ?thesis
    using scan_special_length3 [of s "fst a" "snd a"] starts_literal_letter [of "hd s"]
    by auto
next
  case None
  with assms have "scan_hexadecimal s = Some (lit, r) \<or> scan_decimal s = Some (lit, r)"
    by (auto simp add: scan_literal_def split: option.splits)
  then show ?thesis
    using scan_hexadecimal_hd [of s lit r] scan_decimal_hd [of s lit r]
      starts_literal_digit [of "hd s"]
    by auto
qed

lemma strip_sign_shape:
  assumes "strip_sign s = (neg, body)"
  shows "\<exists>sg. s = sg @ body \<and>
           (\<forall>t. t \<noteq> [] \<and> starts_literal (hd t) \<longrightarrow>
                strip_sign (sg @ t) = (neg, t) \<and> \<not> isspace (hd (sg @ t)))"
proof (cases s)
  case Nil
  with assms show ?thesis
    by (intro exI [of _ "[]"])
      (auto simp add: strip_sign_def starts_literal_def split: list.splits)
next
  case (Cons c cs)
  consider (minus) "c = CHR ''-''" | (plus) "c = CHR ''+''" | (none) "c \<noteq> CHR ''-''" "c \<noteq> CHR ''+''"
    by blast
  then show ?thesis
  proof cases
    case minus
    with assms Cons show ?thesis
      by (intro exI [of _ "''-''"]) (auto simp add: strip_sign_def isspace_def)
  next
    case plus
    with assms Cons show ?thesis
      by (intro exI [of _ "''+''"]) (auto simp add: strip_sign_def isspace_def)
  next
    case none
    with assms Cons show ?thesis
      by (intro exI [of _ "[]"])
        (auto simp add: strip_sign_def starts_literal_def split: list.splits)
  qed
qed

text \<open>The part a scan consumes is a number in full, with the same sign and literal.\<close>

lemma scan_number_consumed:
  assumes "scan_number s = Some (neg, lit, r)"
  shows "\<exists>q. s = q @ r \<and> scan_number q = Some (neg, lit, [])"
proof -
  define ws where "ws = takeWhile isspace s"
  define s1 where "s1 = dropWhile isspace s"
  obtain body where st: "strip_sign s1 = (neg, body)" and l: "scan_literal body = Some (lit, r)"
    using assms
    by (cases "strip_sign s1")
      (auto simp add: scan_number_def s1_def split: option.splits)
  from scan_literal_consumed [OF l] obtain qb where
    qb: "body = qb @ r" "scan_literal qb = Some (lit, [])"
    by blast
  from scan_literal_hd [OF qb(2)] have hd: "qb \<noteq> []" "starts_literal (hd qb)"
    by simp_all
  from strip_sign_shape [OF st] obtain sg where sg: "s1 = sg @ body"
    and loc: "\<And>t. t \<noteq> [] \<and> starts_literal (hd t) \<Longrightarrow>
                strip_sign (sg @ t) = (neg, t) \<and> \<not> isspace (hd (sg @ t))"
    by blast
  from loc [of qb] hd have a: "strip_sign (sg @ qb) = (neg, qb)"
    and b: "\<not> isspace (hd (sg @ qb))"
    by simp_all
  have ne: "sg @ qb \<noteq> []"
    using hd by simp
  have "dropWhile isspace (ws @ sg @ qb) = dropWhile isspace (sg @ qb)"
    by (simp add: dropWhile_app ws_def list_all_takeWhile)
  also have "\<dots> = sg @ qb"
    using ne b by (cases "sg @ qb") auto
  finally have "scan_number (ws @ sg @ qb) = Some (neg, lit, [])"
    using a qb(2) by (simp add: scan_number_def)
  moreover have "s = (ws @ sg @ qb) @ r"
    using sg qb(1) takeWhile_dropWhile_id [of isspace s] by (simp add: ws_def s1_def)
  ultimately show ?thesis
    by blast
qed

text \<open>A number in full stays one, or grows, when more text follows.\<close>

lemma scan_number_extend:
  assumes "scan_number q = Some (neg, lit, [])"
  shows "\<exists>neg' lit' r'. scan_number (q @ r) = Some (neg', lit', r') \<and> length r' \<le> length r"
proof -
  define s1 where "s1 = dropWhile isspace q"
  obtain body where st: "strip_sign s1 = (neg, body)" and l: "scan_literal body = Some (lit, [])"
    using assms
    by (cases "strip_sign s1")
      (auto simp add: scan_number_def s1_def split: option.splits)
  from scan_literal_hd [OF l] have "body \<noteq> []"
    by simp
  with st have ne: "s1 \<noteq> []"
    by (auto simp add: strip_sign_def)
  then have "\<not> list_all isspace q"
    using dropWhile_all [of isspace q] by (auto simp add: s1_def)
  then have d: "dropWhile isspace (q @ r) = s1 @ r"
    by (simp add: dropWhile_app s1_def)
  have s: "strip_sign (s1 @ r) = (neg, body @ r)"
    using ne st by (simp add: strip_sign_app)
  from scan_literal_extend [OF l, of r] obtain lit' r' where
    "scan_literal (body @ r) = Some (lit', r')" "length r' \<le> length r"
    by blast
  with d s show ?thesis
    by (simp add: scan_number_def)
qed

text \<open>
  The conversion of a token is the conversion of its longest prefix that is a number in
  full; a token with no such prefix is no number.
\<close>

lemma stod_longest_prefix:
  assumes val: "val = q @ r" and form: "number_form q"
    and longest: "\<forall>q' r'. val = q' @ r' \<and> number_form q' \<longrightarrow> length q' \<le> length q"
  shows "stod val = stod q"
proof -
  from form obtain neg lit where q: "scan_number q = Some (neg, lit, [])"
    by (auto simp add: number_form_def split: option.splits)
  from scan_number_extend [OF q, of r] val obtain neg' lit' r' where
    v: "scan_number val = Some (neg', lit', r')" and len: "length r' \<le> length r"
    by auto
  from scan_number_consumed [OF v] obtain q0 where
    q0: "val = q0 @ r'" "scan_number q0 = Some (neg', lit', [])"
    by blast
  then have "number_form q0"
    by (simp add: number_form_def)
  with longest q0(1) have "length q0 \<le> length q"
    by blast
  moreover have "length q0 + length r' = length q + length r"
    using val q0(1) by (metis length_append)
  ultimately have "length q0 = length q"
    using len by simp
  with val q0(1) have "q0 = q"
    by (metis append_eq_append_conv)
  with q q0(2) have "neg' = neg" "lit' = lit"
    by simp_all
  with v q show ?thesis
    by (simp add: stod_def)
qed

lemma stod_no_prefix:
  assumes "\<forall>q r. val = q @ r \<longrightarrow> \<not> number_form q"
  shows "stod val = Inl invalid_argument"
proof (cases "scan_number val")
  case None
  then show ?thesis
    by (simp add: stod_def)
next
  case (Some a)
  obtain neg lit r where "a = (neg, lit, r)"
    by (cases a)
  with Some scan_number_consumed [of val neg lit r] obtain q where
    "val = q @ r" "scan_number q = Some (neg, lit, [])"
    by auto
  with assms show ?thesis
    by (auto simp add: number_form_def)
qed

lemma print_pairs_append:
  "even (length pre) \<Longrightarrow>
   print_pairs sd pd (pre @ toks) = print_pairs sd pd pre @ print_pairs sd pd toks"
  by (induction pre rule: names_of.induct) simp_all

section \<open>The range of the conversion\<close>

lemma round_double_error: "round_double neg n d \<noteq> Inl invalid_argument"
  unfolding round_double_def Let_def split_beta
  by (simp only: if_distrib [of "\<lambda>x. x \<noteq> Inl invalid_argument"] sum.inject sum.distinct
      conv_error.distinct simp_thms if_cancel)

lemma to_double_error: "to_double neg lit \<noteq> Inl invalid_argument"
  by (cases lit) (simp_all only: to_double_def float_literal.case round_double_error
      if_distrib [of "\<lambda>x. x \<noteq> Inl invalid_argument"] sum.distinct simp_thms if_cancel)

lemma number_form_in_range:
  "number_form q \<Longrightarrow> stod q \<noteq> Inl invalid_argument"
  by (auto simp add: number_form_def stod_def to_double_error split: option.splits)


lemma bit_length_bounds:
  "0 < n \<Longrightarrow> 0 < bit_length n \<and> 2 ^ nat (bit_length n - 1) \<le> n \<and> n < 2 ^ nat (bit_length n)"
proof (induction n rule: bit_length.induct)
  case (1 n)
  from "1.prems" have unfold: "bit_length n = 1 + bit_length (n div 2)"
    by (simp add: bit_length.simps [of n])
  show ?case
  proof (cases "n div 2 = 0")
    case True
    with "1.prems" have "n = 1"
      by presburger
    then show ?thesis
      by (simp add: bit_length.simps [of 1] bit_length.simps [of 0])
  next
    case False
    with "1.prems" have m: "0 < n div 2"
      by presburger
    with "1.IH" "1.prems" have ih: "0 < bit_length (n div 2)"
      "2 ^ nat (bit_length (n div 2) - 1) \<le> n div 2"
      "n div 2 < 2 ^ nat (bit_length (n div 2))"
      by simp_all
    have s: "nat (bit_length (n div 2)) = Suc (nat (bit_length (n div 2) - 1))"
      using ih(1) by simp
    have "2 * 2 ^ nat (bit_length (n div 2) - 1) \<le> 2 * (n div 2)"
      using ih(2) by simp
    also have "\<dots> \<le> n"
      by presburger
    finally have lo: "2 ^ nat (bit_length n - 1) \<le> n"
      using s by (simp add: unfold)
    have "n < 2 * (n div 2 + 1)"
      by presburger
    also have "\<dots> \<le> 2 * 2 ^ nat (bit_length (n div 2))"
      using ih(3) by simp
    finally have hi: "n < 2 ^ nat (bit_length n)"
      using ih(1) by (simp add: unfold nat_add_distrib)
    from ih(1) lo hi show ?thesis
      by (simp add: unfold)
  qed
qed

lemma round_at_exponent: "e \<le> snd (round_at ab e)"
  by (simp add: round_at_def Let_def)

lemma div_lower_bound:
  fixes a b c :: int
  assumes "0 < b" "c * b \<le> a"
  shows "c \<le> a div b"
proof -
  have "c = (c * b) div b"
    using assms(1) by simp
  also have "\<dots> \<le> a div b"
    using assms by (intro zdiv_mono1) simp_all
  finally show ?thesis .
qed

lemma binary_exponent_lower:
  fixes k :: nat
  assumes den: "0 < den" and big: "2 ^ (k + 53) * den \<le> num"
  shows "int k + 1 \<le> binary_exponent num den"
proof -
  have p: "0 < (2::int) ^ (k + 53)"
    by (rule zero_less_power) simp
  from p den have "0 < 2 ^ (k + 53) * den"
    by (rule mult_pos_pos)
  from this big have num: "0 < num"
    by (rule less_le_trans)
  define kn where "kn = nat (bit_length num - 1)"
  define kd where "kd = nat (bit_length den - 1)"
  from bit_length_bounds [OF num] have pn: "0 < bit_length num"
    and hn: "num < 2 ^ nat (bit_length num)"
    by simp_all
  have "nat (bit_length num) = Suc kn"
    using pn by (simp add: kn_def)
  with hn pn have ln: "bit_length num = int kn + 1" "num < 2 ^ Suc kn"
    by (simp_all add: kn_def)
  from bit_length_bounds [OF den] have ld: "bit_length den = int kd + 1" "2 ^ kd \<le> den"
    by (simp_all add: kd_def)
  have "(2::int) ^ (k + 53 + kd) = 2 ^ (k + 53) * 2 ^ kd"
    by (rule power_add)
  also have "\<dots> \<le> 2 ^ (k + 53) * den"
    using ld(2) p by (intro mult_left_mono) simp_all
  also have "\<dots> < 2 ^ Suc kn"
    using big ln(2) by (rule le_less_trans)
  finally have "k + 53 + kd < Suc kn"
    by (rule power_less_imp_less_exp [rotated]) simp
  then have e0: "int k \<le> bit_length num - bit_length den - 53"
    using ln(1) ld(1) by simp
  show ?thesis
  proof (cases "bit_length num - bit_length den - 53 = int k")
    case False
    with e0 show ?thesis
      by (simp add: binary_exponent_def Let_def)
  next
    case True
    have "(2::int) ^ (k + 53) = 2 ^ 53 * 2 ^ k"
      by (simp only: power_add mult.commute)
    then have "2 ^ 53 * (den * 2 ^ k) = 2 ^ (k + 53) * den"
      by (simp only: mult.assoc mult.commute mult.left_commute)
    then have "2 ^ 53 * (den * 2 ^ k) \<le> num"
      using big by (simp only:)
    moreover have "0 < den * 2 ^ k"
      using den by simp
    ultimately have "2 ^ 53 \<le> num div (den * 2 ^ k)"
      by (intro div_lower_bound)
    with True show ?thesis
      by (simp add: binary_exponent_def Let_def scaled_def)
  qed
qed

text \<open>A value of at least \<open>2\<^sup>1\<^sup>0\<^sup>2\<^sup>4\<close> is out of the range of a double.\<close>

lemma round_double_overflow:
  assumes den: "0 < den" and big: "2 ^ 1024 * den \<le> num"
  shows "round_double neg num den = Inl out_of_range"
proof -
  have p: "0 < (2::int) ^ 1024"
    by (rule zero_less_power) simp
  from p den have "0 < 2 ^ 1024 * den"
    by (rule mult_pos_pos)
  from this big have "0 < num"
    by (rule less_le_trans)
  then have num: "num \<noteq> 0"
    by simp
  have eq: "(971::nat) + 53 = 1024"
    by simp
  have "2 ^ (971 + 53) * den \<le> num"
    using big by (simp only: eq)
  from binary_exponent_lower [OF den this] have e1: "972 \<le> binary_exponent num den"
    by simp
  define e1 where "e1 = binary_exponent num den"
  have m: "max e1 (- 1074) = e1"
    using e1 by (simp add: e1_def)
  have "971 < snd (round_at (scaled num den e1) e1)"
    using round_at_exponent [of e1 "scaled num den e1"] e1 by (simp add: e1_def)
  then show ?thesis
    using num by (simp add: round_double_def Let_def split_beta e1_def [symmetric] m)
qed

lemma to_double_overflow:
  assumes "0 < d" "0 \<le> e" "2 ^ 1024 \<le> d * 10 ^ nat e"
  shows "to_double neg (Decimal d e) = Inl out_of_range"
proof -
  have "(2::int) ^ 1024 * 1 \<le> d * 10 ^ nat e"
    using assms(3) by (simp only: mult_1_right)
  then have "round_double neg (d * 10 ^ nat e) 1 = Inl out_of_range"
    by (rule round_double_overflow [rotated]) (rule zero_less_one)
  with assms(2) show ?thesis
    by (simp only: to_double_def float_literal.case if_True)
qed

lemma ten_to_999: "(2::int) ^ 1024 \<le> 1 * 10 ^ nat 999"
proof -
  have "(2::int) ^ 1024 \<le> 2 ^ (3 * 999)"
    by (rule power_increasing) simp_all
  also have "\<dots> = (2 ^ 3) ^ 999"
    by (rule power_mult)
  also have "\<dots> \<le> 10 ^ 999"
    by (rule power_mono) simp_all
  finally show ?thesis
    by (simp only: nat_numeral mult_1)
qed

lemma stod_1e999: "stod ''1e999'' = Inl out_of_range"
proof -
  have "scan_number ''1e999'' = Some (False, Decimal 1 999, [])"
    by code_simp
  moreover have "to_double False (Decimal 1 999) = Inl out_of_range"
  proof (rule to_double_overflow)
    show "(0::int) < 1" and "(0::int) \<le> 999"
      by simp_all
    show "(2::int) ^ 1024 \<le> 1 * 10 ^ nat 999"
      by (rule ten_to_999)
  qed
  ultimately show ?thesis
    by (simp only: stod_def option.case prod.case)
qed

section \<open>Prefixes that are numbers\<close>

text \<open>Among the prefixes that are numbers in full there is a longest one.\<close>

lemma longest_number_prefix_exists:
  assumes "val = q @ r" and "number_form q"
  shows "\<exists>q0 r0. val = q0 @ r0 \<and> number_form q0 \<and>
           (\<forall>q' r'. val = q' @ r' \<and> number_form q' \<longrightarrow> length q' \<le> length q0)"
proof -
  from assms(2) obtain neg lit where q: "scan_number q = Some (neg, lit, [])"
    by (auto simp add: number_form_def split: option.splits)
  from scan_number_extend [OF q, of r] assms(1) obtain neg0 lit0 r0 where
    v: "scan_number val = Some (neg0, lit0, r0)"
    by auto
  from scan_number_consumed [OF v] obtain q0 where
    q0: "val = q0 @ r0" "scan_number q0 = Some (neg0, lit0, [])"
    by blast
  have "length q' \<le> length q0" if "val = q' @ r'" "number_form q'" for q' r'
  proof -
    from that(2) obtain neg' lit' where "scan_number q' = Some (neg', lit', [])"
      by (auto simp add: number_form_def split: option.splits)
    from scan_number_extend [OF this, of r'] that(1) v have "length r0 \<le> length r'"
      by auto
    moreover have "length q' + length r' = length q0 + length r0"
      using that(1) q0(1) by (metis length_append)
    ultimately show ?thesis
      by simp
  qed
  with q0 show ?thesis
    by (auto simp add: number_form_def)
qed

text \<open>Texts that are numbers in full, and texts that are not.\<close>

lemma number_form_examples:
  "number_form ''1.5''" "number_form '' -.5e-3''" "number_form ''1.''" "number_form ''+1E5''"
  "number_form ''0x1.8p1''" "number_form ''0X.8''" "number_form ''inf''"
  "number_form ''-Infinity''" "number_form ''nan''" "number_form ''NaN(a_1)''"
  "\<not> number_form []" "\<not> number_form ''.''" "\<not> number_form ''1e''" "\<not> number_form ''1e+''"
  "\<not> number_form ''0x''" "\<not> number_form ''+ 1''" "\<not> number_form ''infinit''"
  "\<not> number_form ''nan(''" "\<not> number_form ''1.5a''" "\<not> number_form ''1 ''"
  by code_simp+

text \<open>The two parameter lists that \<^verbatim>\<open>main\<close> parses, with the library's conversion.\<close>

lemma main_parameter_lists:
  "fst (parseCommand stod put_double
      ''D_USR_FLD_Parameter1,0.004947,Parameter2,0.203044,#'' []) =
     ''Parameters:'' @ [nl] @ ''Parameter1 = 0.004947'' @ [nl]
       @ ''Parameter2 = 0.203044'' @ [nl]"
  "fst (parseCommand stod put_double
      ''D_USR_FLD_Parameter3,0.02347,Parameter4,0.12343044,ParameterT,1.12345,#'' []) =
     ''Parameters:'' @ [nl] @ ''Parameter3 = 0.02347'' @ [nl]
       @ ''Parameter4 = 0.12343'' @ [nl] @ ''ParameterT = 1.12345'' @ [nl]"
  by code_simp+

section \<open>The value of a parameter, converted by the library\<close>

text \<open>
  Claim C10, as the specification states it: for a name of at most 15 characters the value
  token is accepted whenever some non-empty prefix of it parses as a floating-point
  number, and the line for an invalid value is written only when there is no such prefix.
  The token \<^verbatim>\<open>1e999\<close> has the prefix \<^verbatim>\<open>1\<close>, which is a number in full that the library
  converts and prints as \<^verbatim>\<open>1\<close>; the parser writes the line for an invalid value, since
  the whole token has the form of a number and is out of the range of a \<^verbatim>\<open>double\<close>.
\<close>

theorem fld_value_prefix_counterexample:
  "''1e999'' = ''1'' @ ''e999''
   \<and> number_form ''1''
   \<and> stod ''1'' = Inr (Finite False 4503599627370496 (- 52))
   \<and> put_double (Finite False 4503599627370496 (- 52)) = ''1''
   \<and> parseCommand stod put_double ''D_USR_FLD_name,1e999#'' []
       = (''Parameters:'' @ [nl] @ ''Invalid parameter value for parameter: name'' @ [nl],
          [''D_USR_FLD_''])"
proof -
  have a: "number_form ''1''"
    and b: "stod ''1'' = Inr (Finite False 4503599627370496 (- 52))"
    and c: "put_double (Finite False 4503599627370496 (- 52)) = ''1''"
    by code_simp+
  have t: "vecTokens ''name,1e999'' = [''name'', ''1e999'']"
    by (simp add: vecTokens_def)
  have "parseCommand stod put_double (''D_USR_FLD_'' @ ''name,1e999'' @ ''#'') []
       = (''Parameters:'' @ [nl] @ ''Invalid parameter value for parameter: name'' @ [nl],
          [''D_USR_FLD_''])"
    unfolding parse_FLD t by (simp add: stod_1e999 updateHistory_def)
  with a b c show ?thesis
    by simp
qed


text \<open>
  Claim C10, amended. For a \<^verbatim>\<open>D_USR_FLD_\<close> pair whose name has at most 15 characters,
  take the longest prefix of the value token that is a number in full (white space, an
  optional sign and a floating-point form). When there is one, the pair is treated as if
  that prefix were the token: the conversion of the prefix does not fail for its form, the
  line \<^verbatim>\<open><name> = <value>\<close> is written with the value of the prefix when it is in the
  range of a \<^verbatim>\<open>double\<close>, and the line for an invalid value when it is out of range. When
  no prefix is a number in full, the line for an invalid value is written.
\<close>

theorem fld_value_longest_prefix:
  assumes "spec_tokens p = pre @ name # val # post"
    and "even (length pre)" and "even (length post)" and "length name \<le> 15"
  shows "(\<forall>q r. val = q @ r \<and> number_form q \<and>
            (\<forall>q' r'. val = q' @ r' \<and> number_form q' \<longrightarrow> length q' \<le> length q) \<longrightarrow>
          stod q \<noteq> Inl invalid_argument \<and>
          fst (parseCommand stod put_double (''D_USR_FLD_'' @ p @ ''#'') h) =
            ''Parameters:'' @ [nl] @ print_pairs stod put_double pre @
            (case stod q of
               Inr d \<Rightarrow> name @ '' = '' @ put_double d @ [nl]
             | Inl e \<Rightarrow> ''Invalid parameter value for parameter: '' @ name @ [nl]) @
            print_pairs stod put_double post)
       \<and> ((\<forall>q r. val = q @ r \<longrightarrow> \<not> number_form q) \<longrightarrow>
          fst (parseCommand stod put_double (''D_USR_FLD_'' @ p @ ''#'') h) =
            ''Parameters:'' @ [nl] @ print_pairs stod put_double pre @
            ''Invalid parameter value for parameter: '' @ name @ [nl] @
            print_pairs stod put_double post)"
proof -
  have ev: "length (vecTokens p) mod 2 = 0"
    using assms(1-3) by (simp add: vecTokens_spec even_iff_mod_2_eq_zero [symmetric])
  have out: "fst (parseCommand stod put_double (''D_USR_FLD_'' @ p @ ''#'') h) =
      ''Parameters:'' @ [nl] @ print_pairs stod put_double pre @
      (case stod val of
         Inr d \<Rightarrow> name @ '' = '' @ put_double d @ [nl]
       | Inl e \<Rightarrow> ''Invalid parameter value for parameter: '' @ name @ [nl]) @
      print_pairs stod put_double post"
    unfolding parse_FLD using ev assms(1,2,4)
    by (simp add: vecTokens_spec print_pairs_append del: append.simps)
  show ?thesis
  proof (intro conjI allI impI)
    fix q r
    assume a: "val = q @ r \<and> number_form q \<and>
      (\<forall>q' r'. val = q' @ r' \<and> number_form q' \<longrightarrow> length q' \<le> length q)"
    then show "stod q \<noteq> Inl invalid_argument"
      by (simp add: number_form_in_range)
    from a have "stod val = stod q"
      by (intro stod_longest_prefix [of val q r]) simp_all
    with out show "fst (parseCommand stod put_double (''D_USR_FLD_'' @ p @ ''#'') h) =
            ''Parameters:'' @ [nl] @ print_pairs stod put_double pre @
            (case stod q of
               Inr d \<Rightarrow> name @ '' = '' @ put_double d @ [nl]
             | Inl e \<Rightarrow> ''Invalid parameter value for parameter: '' @ name @ [nl]) @
            print_pairs stod put_double post"
      by simp
  next
    assume "\<forall>q r. val = q @ r \<longrightarrow> \<not> number_form q"
    then have "stod val = Inl invalid_argument"
      by (rule stod_no_prefix)
    with out show "fst (parseCommand stod put_double (''D_USR_FLD_'' @ p @ ''#'') h) =
            ''Parameters:'' @ [nl] @ print_pairs stod put_double pre @
            ''Invalid parameter value for parameter: '' @ name @ [nl] @
            print_pairs stod put_double post"
      by simp
  qed
qed

theorem fld_value_longest_prefix_witness:
  "number_form ''1.5''
   \<and> fst (parseCommand stod put_double ''D_USR_FLD_name,1.5abc#'' [])
       = ''Parameters:'' @ [nl] @ ''name = 1.5'' @ [nl]
   \<and> fst (parseCommand stod put_double ''D_USR_FLD_name,abc#'' [])
       = ''Parameters:'' @ [nl] @ ''Invalid parameter value for parameter: name'' @ [nl]
   \<and> number_form ''1e999''
   \<and> fst (parseCommand stod put_double ''D_USR_FLD_name,1e999#'' [])
       = ''Parameters:'' @ [nl] @ ''Invalid parameter value for parameter: name'' @ [nl]"
proof -
  have t1: "spec_tokens ''name,1.5abc'' = [] @ ''name'' # ''1.5abc'' # []"
    and t2: "spec_tokens ''name,abc'' = [] @ ''name'' # ''abc'' # []"
    and t3: "spec_tokens ''name,1e999'' = [] @ ''name'' # ''1e999'' # []"
    by (simp_all add: spec_tokens_def)
  have e: "even (length ([] :: string list))" and n: "length ''name'' \<le> 15"
    by simp_all
  have f1: "number_form ''1.5''" and f3: "number_form ''1e999''"
    by code_simp+
  have g1: "\<not> number_form ''1.5a''" "\<not> number_form ''1.5ab''" "\<not> number_form ''1.5abc''"
    by code_simp+
  have g2: "\<not> number_form []" "\<not> number_form ''a''" "\<not> number_form ''ab''"
    "\<not> number_form ''abc''"
    by code_simp+
  have l1: "\<forall>q' r'. ''1.5abc'' = q' @ r' \<and> number_form q' \<longrightarrow> length q' \<le> length ''1.5''"
    using g1 by (auto simp add: Cons_eq_append_conv)
  have l2: "\<forall>q r. ''abc'' = q @ r \<longrightarrow> \<not> number_form q"
    using g2 by (auto simp add: Cons_eq_append_conv)
  have l3: "\<forall>q' r'. ''1e999'' = q' @ r' \<and> number_form q' \<longrightarrow> length q' \<le> length ''1e999''"
  proof (intro allI impI)
    fix q' r' :: string
    assume "''1e999'' = q' @ r' \<and> number_form q'"
    then have "length ''1e999'' = length q' + length r'"
      by (metis length_append)
    then show "length q' \<le> length ''1e999''"
      by simp
  qed
  have v: "stod ''1.5'' = Inr (Finite False 6755399441055744 (- 52))"
    and p: "put_double (Finite False 6755399441055744 (- 52)) = ''1.5''"
    by code_simp+
  have w1: "''1.5abc'' = ''1.5'' @ ''abc''" and w3: "''1e999'' = ''1e999'' @ []"
    by simp_all
  note thm1 = fld_value_longest_prefix [OF t1 e e n, of "[]"]
  note thm2 = fld_value_longest_prefix [OF t2 e e n, of "[]"]
  note thm3 = fld_value_longest_prefix [OF t3 e e n, of "[]"]
  from thm1 w1 f1 l1
  have r1: "fst (parseCommand stod put_double (''D_USR_FLD_'' @ ''name,1.5abc'' @ ''#'') [])
       = ''Parameters:'' @ [nl] @ print_pairs stod put_double [] @
         (case stod ''1.5'' of
            Inr d \<Rightarrow> ''name'' @ '' = '' @ put_double d @ [nl]
          | Inl e \<Rightarrow> ''Invalid parameter value for parameter: '' @ ''name'' @ [nl]) @
         print_pairs stod put_double []"
    by blast
  from thm2 l2
  have r2: "fst (parseCommand stod put_double (''D_USR_FLD_'' @ ''name,abc'' @ ''#'') [])
       = ''Parameters:'' @ [nl] @ print_pairs stod put_double [] @
         ''Invalid parameter value for parameter: '' @ ''name'' @ [nl] @
         print_pairs stod put_double []"
    by blast
  from thm3 w3 f3 l3
  have r3: "fst (parseCommand stod put_double (''D_USR_FLD_'' @ ''name,1e999'' @ ''#'') [])
       = ''Parameters:'' @ [nl] @ print_pairs stod put_double [] @
         (case stod ''1e999'' of
            Inr d \<Rightarrow> ''name'' @ '' = '' @ put_double d @ [nl]
          | Inl e \<Rightarrow> ''Invalid parameter value for parameter: '' @ ''name'' @ [nl]) @
         print_pairs stod put_double []"
    by blast
  from r1 r2 r3 f1 f3 show ?thesis
    by (simp add: v p stod_1e999)
qed

end
